theory Spec2Isabelle
  imports Complex_Main
begin

section \<open>Strings and numbers of the host language\<close>

text \<open>
  The program is \<^verbatim>\<open>src/lib/knowledge.ts\<close> of the chat assistant. A JavaScript string
  is a sequence of UTF-16 code units and \<^verbatim>\<open>length\<close> counts code units, so a string is
  modelled as the list of its code units, each given by its number. The citation marker
  of the CSV path uses the code units U+3010, U+2020 and U+3011, which is why bytes
  would not do.
\<close>

type_synonym cunit = nat
type_synonym jstring = "cunit list"

definition js :: "string \<Rightarrow> jstring" where
  \<comment> \<open>an ASCII literal of the source as code units\<close>
  "js s = map of_char s"

definition is_space :: "cunit \<Rightarrow> bool" where
  \<comment> \<open>the class \<^verbatim>\<open>\s\<close> of the regular expressions, which is also the white space that
      \<^verbatim>\<open>parseInt\<close> skips: WhiteSpace and LineTerminator of the language\<close>
  "is_space c \<longleftrightarrow>
     c \<in> {9, 10, 11, 12, 13, 32, 160, 5760, 8232, 8233, 8239, 8287, 12288, 65279}
     \<or> (8192 \<le> c \<and> c \<le> 8202)"

definition is_digit :: "cunit \<Rightarrow> bool" where
  \<comment> \<open>the class \<^verbatim>\<open>\d\<close>\<close>
  "is_digit c \<longleftrightarrow> 48 \<le> c \<and> c \<le> 57"

definition fold_case :: "cunit \<Rightarrow> cunit" where
  \<comment> \<open>canonicalisation under the flag \<^verbatim>\<open>i\<close> (without \<^verbatim>\<open>u\<close>): a code unit is
      compared by its upper case, except that a code unit from 128 on is never identified
      with one below 128; so against the ASCII letters of the patterns only the ASCII
      letters fold\<close>
  "fold_case c = (if 97 \<le> c \<and> c \<le> 122 then c - 32 else c)"

function toString :: "nat \<Rightarrow> jstring" where
  \<comment> \<open>\<^verbatim>\<open>Number.prototype.toString\<close> and the template conversion, on a non-negative integer\<close>
  "toString n = (if n < 10 then [48 + n] else toString (n div 10) @ [48 + n mod 10])"
  by pat_completeness auto
termination
  by (relation "measure id") auto

declare toString.simps [simp del]

definition digits_value :: "jstring \<Rightarrow> nat" where
  "digits_value ds = foldl (\<lambda>a c. 10 * a + (c - 48)) 0 ds"

definition parseInt :: "jstring \<Rightarrow> int option" where
  \<comment> \<open>\<^verbatim>\<open>parseInt(s, 10)\<close>: skip leading white space, read an optional sign, then the
      longest run of decimal digits; no digit gives \<^verbatim>\<open>NaN\<close>, here \<open>None\<close>. The host computes
      in binary64, which is exact below \<open>2 ^ 53\<close>; the model keeps the exact integer.\<close>
  "parseInt s =
     (let t = dropWhile is_space s;
          neg = (t \<noteq> [] \<and> hd t = 45);
          u = (if t \<noteq> [] \<and> (hd t = 45 \<or> hd t = 43) then tl t else t);
          ds = takeWhile is_digit u
      in if ds = [] then None
         else Some (if neg then - int (digits_value ds) else int (digits_value ds)))"

definition join :: "jstring \<Rightarrow> jstring list \<Rightarrow> jstring" where
  \<comment> \<open>\<^verbatim>\<open>Array.prototype.join\<close>\<close>
  "join sep xs = (case xs of [] \<Rightarrow> [] | y # ys \<Rightarrow> y @ concat (map (\<lambda>z. sep @ z) ys))"

definition slice :: "nat \<Rightarrow> nat \<Rightarrow> 'a list \<Rightarrow> 'a list" where
  \<comment> \<open>\<^verbatim>\<open>xs.slice(a, b)\<close> for non-negative \<open>a\<close> and \<open>b\<close>: both ends are clamped to the length\<close>
  "slice a b xs = take (b - a) (drop a xs)"

definition slice_last :: "nat \<Rightarrow> 'a list \<Rightarrow> 'a list" where
  \<comment> \<open>\<^verbatim>\<open>xs.slice(-k)\<close>: for positive \<open>k\<close> the last \<open>k\<close> elements (all of them when
      \<open>k\<close> exceeds the length); \<^verbatim>\<open>-0\<close> is \<^verbatim>\<open>0\<close>, so for \<open>k = 0\<close> the whole array\<close>
  "slice_last k xs = (if k = 0 then xs else drop (length xs - k) xs)"

subsection \<open>Products with a binary64 constant\<close>

text \<open>
  \<^verbatim>\<open>Math.floor(n * 0.6)\<close> and \<^verbatim>\<open>Math.floor(n * 0.7)\<close> multiply in binary64. The
  literal is the double \<open>m / 2 ^ 53\<close> with a 53-bit \<open>m\<close>; the exact product \<open>n * m / 2 ^ 53\<close>
  is rounded to 53 significant bits, ties to even, and then floored. Everything is an
  integer computation on the numerator. The difference from \<open>n * 7 div 10\<close> is real:
  \<^verbatim>\<open>Math.floor(90 * 0.7)\<close> is 62.
\<close>

fun bit_length :: "nat \<Rightarrow> nat" where
  "bit_length n = (if n = 0 then 0 else Suc (bit_length (n div 2)))"

declare bit_length.simps [simp del]

definition mul_floor :: "nat \<Rightarrow> nat \<Rightarrow> nat" where
  "mul_floor n m =
     (let N = n * m;
          sh = bit_length N - 53;
          q = N div 2 ^ sh;
          r = N mod 2 ^ sh;
          M = (if 2 ^ sh < 2 * r \<or> (2 * r = 2 ^ sh \<and> odd q) then q + 1 else q)
      in (M * 2 ^ sh) div 2 ^ 53)"

definition floor_60_percent :: "nat \<Rightarrow> nat" where
  \<comment> \<open>\<^verbatim>\<open>Math.floor(n * 0.6)\<close>; the literal is \<open>5404319552844595 / 2 ^ 53\<close>\<close>
  "floor_60_percent n = mul_floor n 5404319552844595"

definition floor_70_percent :: "nat \<Rightarrow> nat" where
  \<comment> \<open>\<^verbatim>\<open>Math.floor(n * 0.7)\<close>; the literal is \<open>6305039478318694 / 2 ^ 53\<close>\<close>
  "floor_70_percent n = mul_floor n 6305039478318694"

section \<open>Data model\<close>

text \<open>
  A parsed row is an object with one property per column; \<^verbatim>\<open>Object.entries\<close> lists
  them in order. A value is a scalar: \<open>Null\<close> stands for \<^verbatim>\<open>null\<close>,
  \<open>Str\<close> for a string, and for any other scalar its string rendering, since the program only
  renders a value, compares it with \<^verbatim>\<open>''\<close> and tests it against \<^verbatim>\<open>null\<close>.
\<close>

datatype scalar = Null | Str jstring

type_synonym row = "(jstring \<times> scalar) list"

text \<open>
  \<^verbatim>\<open>DataEntry\<close>: the spread row with the two reserved properties \<^verbatim>\<open>source\<close> and
  \<^verbatim>\<open>content\<close> set after it. Every reader of an entry's own properties drops these two
  keys, so the record keeps the row as it was parsed beside them.
\<close>

record DataEntry =
  columns :: row
  source :: jstring
  content :: jstring

text \<open>
  An element of the cache. The declared type is \<^verbatim>\<open>DataEntry[]\<close>, but the cache is
  refilled from \<^verbatim>\<open>JSON.parse\<close> of stored text without any check of the elements, so an
  element can be \<^verbatim>\<open>null\<close>; reading a property of it raises \<^verbatim>\<open>TypeError\<close>. Other
  JSON values in that place are not modelled.
\<close>

datatype slot = JNull | Entry DataEntry

datatype jexn =
    QuotaExceeded           \<comment> \<open>a store call that throws\<close>
  | RangeError              \<comment> \<open>no room on the call stack\<close>
  | TypeError               \<comment> \<open>property read on \<^verbatim>\<open>null\<close>\<close>
  | Error                   \<comment> \<open>\<^verbatim>\<open>new Error(message)\<close>, whatever the message\<close>

definition MAX_CHUNKS :: nat where
  "MAX_CHUNKS = 40"

section \<open>Partition into chunks\<close>

definition itemsPerChunk :: "nat \<Rightarrow> nat" where
  \<comment> \<open>\<^verbatim>\<open>Math.ceil(cachedData.length / MAX_CHUNKS)\<close>. Both operands are exact and the
      division is correctly rounded, so the quotient is an integer exactly when 40 divides
      the length and lies at least 1/40 from one otherwise: the ceiling is the integer one.\<close>
  "itemsPerChunk n = (n + MAX_CHUNKS - 1) div MAX_CHUNKS"

lemma itemsPerChunk_pos: "0 < n \<Longrightarrow> 0 < itemsPerChunk n"
  by (simp add: itemsPerChunk_def MAX_CHUNKS_def)

function chunk_loop :: "nat \<Rightarrow> 'a list \<Rightarrow> 'a list list \<Rightarrow> 'a list list" where
  \<comment> \<open>\<^verbatim>\<open>for (let i = 0; i < cachedData.length; i += itemsPerChunk)
        chunks.push(cachedData.slice(i, i + itemsPerChunk))\<close>\<close>
  "chunk_loop i xs chunks =
     (if i < length xs
      then chunk_loop (i + itemsPerChunk (length xs)) xs
             (chunks @ [slice i (i + itemsPerChunk (length xs)) xs])
      else chunks)"
  by pat_completeness auto
termination
proof (relation "measure (\<lambda>(i, xs, chunks). length xs - i)")
  show "wf (measure (\<lambda>(i, xs, chunks). length xs - i))"
    by simp
next
  fix i :: nat and xs :: "'a list" and chunks :: "'a list list"
  assume less: "i < length xs"
  then have "0 < itemsPerChunk (length xs)"
    by (intro itemsPerChunk_pos) (cases xs, auto)
  with less show "((i + itemsPerChunk (length xs), xs,
      chunks @ [slice i (i + itemsPerChunk (length xs)) xs]), (i, xs, chunks))
      \<in> measure (\<lambda>(i, xs, chunks). length xs - i)"
    by simp
qed

declare chunk_loop.simps [simp del]

definition make_chunks :: "'a list \<Rightarrow> 'a list list" where
  "make_chunks xs = chunk_loop 0 xs []"

section \<open>The key-value store and the module state\<close>

text \<open>
  \<^verbatim>\<open>localStorage\<close> holds text under three kinds of key, and each kind is read through one
  decoder only, so a stored text is modelled by what its decoder makes of it:
  \<^item> \<^verbatim>\<open>FILES_KEY\<close>, read by \<^verbatim>\<open>JSON.parse\<close>: the empty text (falsy, not parsed), text that
    \<^verbatim>\<open>JSON.parse\<close> rejects, or the JSON of a list of names;
  \<^item> \<^verbatim>\<open>CHUNK_COUNT_KEY\<close>, read by \<^verbatim>\<open>parseInt\<close>: the text itself;
  \<^item> \<^verbatim>\<open>CACHE_KEY_PREFIX + i\<close>, read by \<^verbatim>\<open>decompress\<close> and \<^verbatim>\<open>JSON.parse\<close>: either
    \<^verbatim>\<open>compress(JSON.stringify(xs))\<close> of an array \<open>xs\<close>, or anything else, which the loader skips
    (empty text, text that does not decompress, or that does not parse to an array).
  The codecs of the libraries are taken to invert each other on what this program writes.
\<close>

datatype files_text = FilesEmpty | FilesCorrupt | FilesJson "jstring list"

datatype chunk_text = ChunkCorrupt | ChunkLz "slot list"

record storage =
  files_item :: "files_text option"
  count_item :: "jstring option"
  chunk_item :: "nat \<Rightarrow> chunk_text option"

text \<open>
  The module state: the two module variables, the store, and the number of mutating calls
  (\<^verbatim>\<open>setItem\<close>, \<^verbatim>\<open>removeItem\<close>) made on the store so far. The behaviour of the store
  is a predicate on that number: \<open>faults k\<close> says that the \<open>k\<close>-th mutating call throws
  and leaves the store as it was.
\<close>

record state =
  cachedData :: "slot list"
  userUploadedFiles :: "jstring list"
  localStorage :: storage
  calls :: nat

type_synonym faults = "nat \<Rightarrow> bool"

type_synonym 'a outcome = "(jexn + 'a) \<times> state"

definition mutate :: "faults \<Rightarrow> (storage \<Rightarrow> storage) \<Rightarrow> state \<Rightarrow> unit outcome" where
  "mutate faults f s =
     (if faults (calls s) then (Inl QuotaExceeded, s\<lparr>calls := Suc (calls s)\<rparr>)
      else (Inr (), s\<lparr>localStorage := f (localStorage s), calls := Suc (calls s)\<rparr>))"

definition setItem_files :: "faults \<Rightarrow> jstring list \<Rightarrow> state \<Rightarrow> unit outcome" where
  "setItem_files faults names = mutate faults (\<lambda>st. st\<lparr>files_item := Some (FilesJson names)\<rparr>)"

definition setItem_count :: "faults \<Rightarrow> jstring \<Rightarrow> state \<Rightarrow> unit outcome" where
  "setItem_count faults t = mutate faults (\<lambda>st. st\<lparr>count_item := Some t\<rparr>)"

definition setItem_chunk :: "faults \<Rightarrow> nat \<Rightarrow> slot list \<Rightarrow> state \<Rightarrow> unit outcome" where
  "setItem_chunk faults i xs =
     mutate faults (\<lambda>st. st\<lparr>chunk_item := (chunk_item st)(i \<mapsto> ChunkLz xs)\<rparr>)"

definition removeItem_chunk :: "faults \<Rightarrow> nat \<Rightarrow> state \<Rightarrow> unit outcome" where
  "removeItem_chunk faults i =
     mutate faults (\<lambda>st. st\<lparr>chunk_item := (chunk_item st)(i := None)\<rparr>)"

definition and_then :: "unit outcome \<Rightarrow> (state \<Rightarrow> 'a outcome) \<Rightarrow> 'a outcome" where
  \<comment> \<open>statement sequencing: an exception skips what follows, the state stays as it is\<close>
  "and_then r f = (case r of (Inl e, s) \<Rightarrow> (Inl e, s) | (Inr u, s) \<Rightarrow> f s)"

definition stored_chunk_count :: "storage \<Rightarrow> nat" where
  \<comment> \<open>\<^verbatim>\<open>parseInt(localStorage.getItem(CHUNK_COUNT_KEY) || '0', 10)\<close> as the bound of
      \<^verbatim>\<open>for (let i = 0; i < chunkCount; i++)\<close>: \<^verbatim>\<open>NaN\<close> and negative numbers give no
      iteration\<close>
  "stored_chunk_count st =
     (case parseInt (case count_item st of None \<Rightarrow> js ''0''
                      | Some t \<Rightarrow> if t = [] then js ''0'' else t) of
        None \<Rightarrow> 0
      | Some k \<Rightarrow> nat k)"

section \<open>Persist: saveCachedData\<close>

fun remove_chunks :: "faults \<Rightarrow> nat list \<Rightarrow> state \<Rightarrow> unit outcome" where
  \<comment> \<open>\<^verbatim>\<open>for (let i = 0; i < oldChunkCount; i++) localStorage.removeItem(...)\<close>\<close>
  "remove_chunks faults [] s = (Inr (), s)"
| "remove_chunks faults (i # rest) s =
     and_then (removeItem_chunk faults i s) (remove_chunks faults rest)"

definition write_chunk :: "faults \<Rightarrow> nat \<Rightarrow> slot list \<Rightarrow> state \<Rightarrow> unit outcome" where
  \<comment> \<open>the callback of \<^verbatim>\<open>chunks.forEach\<close>: a failed write is retried once with the first
      \<^verbatim>\<open>Math.floor(chunk.length * 0.7)\<close> records; a failure of the retry is not caught here\<close>
  "write_chunk faults index chunk s =
     (case setItem_chunk faults index chunk s of
        (Inr u, s') \<Rightarrow> (Inr u, s')
      | (Inl chunkError, s') \<Rightarrow>
          setItem_chunk faults index (slice 0 (floor_70_percent (length chunk)) chunk) s')"

fun write_chunks :: "faults \<Rightarrow> nat \<Rightarrow> slot list list \<Rightarrow> state \<Rightarrow> unit outcome" where
  \<comment> \<open>\<^verbatim>\<open>chunks.forEach((chunk, index) => ...)\<close>, from \<open>index\<close> on\<close>
  "write_chunks faults index [] s = (Inr (), s)"
| "write_chunks faults index (chunk # rest) s =
     and_then (write_chunk faults index chunk s) (write_chunks faults (Suc index) rest)"

definition save_pass :: "faults \<Rightarrow> state \<Rightarrow> unit outcome" where
  \<comment> \<open>the body of the outer \<^verbatim>\<open>try\<close> of \<^verbatim>\<open>saveCachedData\<close>\<close>
  "save_pass faults s =
     and_then (setItem_files faults (userUploadedFiles s) s) (\<lambda>s1.
     and_then (remove_chunks faults [0 ..< stored_chunk_count (localStorage s1)] s1) (\<lambda>s2.
     and_then (write_chunks faults 0 (make_chunks (cachedData s2)) s2) (\<lambda>s3.
     setItem_count faults (toString (length (make_chunks (cachedData s3)))) s3)))"

definition prune :: "state \<Rightarrow> state" where
  \<comment> \<open>\<^verbatim>\<open>cachedData = cachedData.slice(-Math.floor(cachedData.length * 0.6))\<close>\<close>
  "prune s = s\<lparr>cachedData :=
     slice_last (floor_60_percent (length (cachedData s))) (cachedData s)\<rparr>"

text \<open>
  \<^verbatim>\<open>saveCachedData\<close> calls itself from its \<^verbatim>\<open>catch\<close> block, and nothing but a store that
  stops failing ends that recursion. The engine's call stack is finite: the first argument
  is the number of frames of \<^verbatim>\<open>saveCachedData\<close> that still fit. A call with no room
  raises \<^verbatim>\<open>RangeError\<close> at the call site, an exception like any other; the call site
  of the recursion is inside the inner \<^verbatim>\<open>try\<close>.
\<close>

fun saveCachedData :: "nat \<Rightarrow> faults \<Rightarrow> state \<Rightarrow> unit outcome" where
  "saveCachedData 0 faults s = (Inl RangeError, s)"
| "saveCachedData (Suc depth) faults s =
     (case save_pass faults s of
        (Inr u, s') \<Rightarrow> (Inr u, s')
      | (Inl error, s') \<Rightarrow>
          (case saveCachedData depth faults (prune s') of
             (Inr u, s'') \<Rightarrow> (Inr u, s'')
           | (Inl retryError, s'') \<Rightarrow> (Inr (), s'')))"

declare saveCachedData.simps [simp del]


section \<open>Restore: loadCachedData\<close>

fun load_chunks :: "storage \<Rightarrow> nat list \<Rightarrow> slot list \<Rightarrow> nat list \<Rightarrow> slot list \<times> nat list" where
  \<comment> \<open>\<^verbatim>\<open>for (let i = 0; i < chunkCount; i++)\<close> with its inner \<^verbatim>\<open>try\<close>: a chunk that is
      missing or does not decode is skipped. The last argument records the indices given
      to \<^verbatim>\<open>getItem\<close>, in order.\<close>
  "load_chunks st [] data reads = (data, reads)"
| "load_chunks st (i # rest) data reads =
     (case chunk_item st i of
        Some (ChunkLz parsedChunk) \<Rightarrow> load_chunks st rest (data @ parsedChunk) (reads @ [i])
      | _ \<Rightarrow> load_chunks st rest data (reads @ [i]))"

definition loadCachedData :: "state \<Rightarrow> state \<times> nat list" where
  \<comment> \<open>returns the new state and the chunk indices that were read. \<^verbatim>\<open>JSON.parse\<close> of the
      saved file list is outside the inner \<^verbatim>\<open>try\<close>: when it throws, the outer \<^verbatim>\<open>catch\<close>
      empties both variables and no chunk is read.\<close>
  "loadCachedData s =
     (case files_item (localStorage s) of
        Some FilesCorrupt \<Rightarrow> (s\<lparr>cachedData := [], userUploadedFiles := []\<rparr>, [])
      | savedFiles \<Rightarrow>
          (let names = (case savedFiles of Some (FilesJson parsed) \<Rightarrow> parsed
                        | _ \<Rightarrow> userUploadedFiles s);
               (data, reads) = load_chunks (localStorage s)
                                 [0 ..< stored_chunk_count (localStorage s)] [] []
           in (s\<lparr>cachedData := data, userUploadedFiles := names\<rparr>, reads)))"

section \<open>Tabular ingestion\<close>

text \<open>
  Reading and parsing are the libraries' work (\<^verbatim>\<open>FileReader\<close>, \<^verbatim>\<open>fetch\<close>, Papa Parse,
  SheetJS). An uploaded file is its name together with what the reader and the parser
  chosen by its extension make of it: \<open>None\<close> when reading or parsing fails, otherwise the
  row objects (\<^verbatim>\<open>results.data\<close>, \<^verbatim>\<open>jsonData\<close>).
\<close>

record upload =
  name :: jstring
  parsed :: "row list option"

datatype csv_arg =
    Path jstring "row list option"  \<comment> \<open>a string: the file under \<^verbatim>\<open>/data/\<close> and what fetching and parsing it gives\<close>
  | File upload

definition filled :: "scalar \<Rightarrow> bool" where
  \<comment> \<open>\<^verbatim>\<open>value != null && value !== ''\<close>\<close>
  "filled v \<longleftrightarrow> v \<noteq> Null \<and> v \<noteq> Str []"

definition render :: "scalar \<Rightarrow> jstring" where
  \<comment> \<open>\<^verbatim>\<open>String(value)\<close>\<close>
  "render v = (case v of Null \<Rightarrow> js ''null'' | Str t \<Rightarrow> t)"

definition has_data :: "row \<Rightarrow> bool" where
  \<comment> \<open>\<^verbatim>\<open>Object.values(row).some(value => value != null && value !== '')\<close>\<close>
  "has_data r \<longleftrightarrow> list_ex filled (map snd r)"

definition pairs_text :: "row \<Rightarrow> jstring" where
  \<comment> \<open>the non-empty \<^verbatim>\<open>key: value\<close> pairs joined by \<^verbatim>\<open>' | '\<close>\<close>
  "pairs_text r =
     join (js '' | '')
       (map (\<lambda>(key, v). key @ js '': '' @ render v) (filter (\<lambda>(key, v). filled v) r))"

definition sourceRef :: "nat \<Rightarrow> jstring" where
  \<comment> \<open>the template around \<^verbatim>\<open>${index + 1}:1\<close> and the word \<^verbatim>\<open>source\<close>, for the index
      \<open>index\<close>: U+3010, the number, \<^verbatim>\<open>:1\<close>, U+2020, \<^verbatim>\<open>source\<close>, U+3011\<close>
  "sourceRef index = [12304] @ toString (index + 1) @ js '':1'' @ [8224] @ js ''source'' @ [12305]"

definition processCsvFile :: "csv_arg \<Rightarrow> jexn + DataEntry list" where
  "processCsvFile file =
     (case (case file of Path p fetched \<Rightarrow> fetched | File f \<Rightarrow> parsed f) of
        None \<Rightarrow> Inl Error
      | Some data \<Rightarrow>
          if data = [] then Inl Error
          else Inr (map (\<lambda>(index, r).
                 \<lparr>columns = r,
                  source = (case file of Path p fetched \<Rightarrow> js ''PharmAlchemy'' | File f \<Rightarrow> name f),
                  content = sourceRef index @ pairs_text r\<rparr>)
               (enumerate 0 (filter has_data data))))"

definition processExcelFile :: "upload \<Rightarrow> jexn + DataEntry list" where
  "processExcelFile file =
     (case parsed file of
        None \<Rightarrow> Inl Error
      | Some jsonData \<Rightarrow>
          if jsonData = [] then Inl Error
          else Inr (map (\<lambda>r. \<lparr>columns = r, source = name file, content = pairs_text r\<rparr>)
                 (filter has_data jsonData)))"

fun filter_entries :: "(DataEntry \<Rightarrow> bool) \<Rightarrow> slot list \<Rightarrow> jexn + slot list" where
  \<comment> \<open>\<^verbatim>\<open>cachedData.filter(entry => ...)\<close> with a callback that reads a property of the
      entry: on \<^verbatim>\<open>null\<close> the read throws and no array is produced\<close>
  "filter_entries keep [] = Inr []"
| "filter_entries keep (JNull # rest) = Inl TypeError"
| "filter_entries keep (Entry e # rest) =
     (case filter_entries keep rest of
        Inl err \<Rightarrow> Inl err
      | Inr kept \<Rightarrow> Inr (if keep e then Entry e # kept else kept))"

definition fileExtension :: "(jstring \<Rightarrow> jstring) \<Rightarrow> jstring \<Rightarrow> jstring" where
  \<comment> \<open>\<^verbatim>\<open>file.name.split('.').pop()?.toLowerCase()\<close>: what follows the last dot, or the
      whole name when it has none. \<^verbatim>\<open>toLowerCase\<close> is the host's and is a parameter.\<close>
  "fileExtension toLowerCase nm = toLowerCase (rev (takeWhile (\<lambda>c. c \<noteq> 46) (rev nm)))"

definition processFile ::
  "(jstring \<Rightarrow> jstring) \<Rightarrow> nat \<Rightarrow> faults \<Rightarrow> upload \<Rightarrow> state \<Rightarrow> (DataEntry list) outcome" where
  \<comment> \<open>the second argument is the room on the call stack for \<^verbatim>\<open>saveCachedData\<close>\<close>
  "processFile toLowerCase depth faults file s =
     (let ext = fileExtension toLowerCase (name file) in
      case (if ext = js ''xlsx'' \<or> ext = js ''xls'' then processExcelFile file
            else if ext = js ''csv'' then processCsvFile (File file)
            else Inl Error) of
        Inl err \<Rightarrow> (Inl err, s)
      | Inr data \<Rightarrow>
          (case filter_entries (\<lambda>entry. source entry \<noteq> name file) (cachedData s) of
             Inl err \<Rightarrow> (Inl err, s)
           | Inr kept \<Rightarrow>
               (let s1 = s\<lparr>cachedData := kept @ map Entry data\<rparr>;
                    s2 = (if name file \<in> set (userUploadedFiles s1) then s1
                          else s1\<lparr>userUploadedFiles := userUploadedFiles s1 @ [name file]\<rparr>)
                in case saveCachedData depth faults s2 of
                     (Inl err, s3) \<Rightarrow> (Inl err, s3)
                   | (Inr u, s3) \<Rightarrow> (Inr data, s3))))"


section \<open>Row-range commands\<close>

datatype row_type = Top | Bottom

fun first_match :: "('a \<Rightarrow> 'b option) \<Rightarrow> 'a list \<Rightarrow> 'b option" where
  \<comment> \<open>try the alternatives in order, the first that succeeds wins\<close>
  "first_match f [] = None"
| "first_match f (x # xs) = (case f x of Some y \<Rightarrow> Some y | None \<Rightarrow> first_match f xs)"

definition strip_literal :: "jstring \<Rightarrow> jstring \<Rightarrow> jstring option" where
  \<comment> \<open>a literal of a pattern under the flag \<^verbatim>\<open>i\<close>, at the head of the input; gives the rest\<close>
  "strip_literal lit s =
     (if length lit \<le> length s \<and> map fold_case (take (length lit) s) = map fold_case lit
      then Some (drop (length lit) s) else None)"

definition strip_spaces :: "jstring \<Rightarrow> jstring option" where
  \<comment> \<open>\<^verbatim>\<open>\s+\<close>, greedy. What follows it in the patterns starts with a letter or a digit, so
      giving back white space never helps and the longest run is the only match.\<close>
  "strip_spaces s =
     (case s of [] \<Rightarrow> None
      | c # cs \<Rightarrow> if is_space c then Some (dropWhile is_space cs) else None)"

definition capture_digits :: "jstring \<Rightarrow> jstring option" where
  \<comment> \<open>\<^verbatim>\<open>(\d+)\<close> at the end of a pattern: the longest run of digits, at least one\<close>
  "capture_digits s = (let ds = takeWhile is_digit s in if ds = [] then None else Some ds)"

definition match_range :: "jstring list \<Rightarrow> jstring \<Rightarrow> jstring option" where
  \<comment> \<open>\<^verbatim>\<open>(?:kw1|kw2)\s+(\d+)\<close> at the head of the input; gives the capture\<close>
  "match_range keywords s =
     first_match (\<lambda>kw.
        case strip_literal kw s of None \<Rightarrow> None
        | Some r1 \<Rightarrow> (case strip_spaces r1 of None \<Rightarrow> None
            | Some r2 \<Rightarrow> capture_digits r2)) keywords"

definition match_verb_range :: "jstring list \<Rightarrow> jstring \<Rightarrow> jstring option" where
  \<comment> \<open>\<^verbatim>\<open>(?:show|get|display)\s+(?:kw1|kw2)\s+(\d+)\<close> at the head of the input\<close>
  "match_verb_range keywords s =
     first_match (\<lambda>verb.
        case strip_literal verb s of None \<Rightarrow> None
        | Some r1 \<Rightarrow> (case strip_spaces r1 of None \<Rightarrow> None
            | Some r2 \<Rightarrow> match_range keywords r2)) [js ''show'', js ''get'', js ''display'']"

fun search_from :: "(jstring \<Rightarrow> jstring option) \<Rightarrow> jstring \<Rightarrow> jstring option" where
  \<comment> \<open>an unanchored pattern: the leftmost position where it matches\<close>
  "search_from m [] = m []"
| "search_from m (c # cs) =
     (case m (c # cs) of Some d \<Rightarrow> Some d | None \<Rightarrow> search_from m cs)"

definition patterns :: "(row_type \<times> (jstring \<Rightarrow> jstring option)) list" where
  "patterns =
     [(Top, search_from (match_verb_range [js ''top'', js ''first''])),
      (Bottom, search_from (match_verb_range [js ''bottom'', js ''last''])),
      (Top, match_range [js ''top'', js ''first'']),
      (Bottom, match_range [js ''bottom'', js ''last''])]"

definition extractRowsCommand :: "jstring \<Rightarrow> (row_type \<times> nat) option" where
  \<comment> \<open>the count is \<^verbatim>\<open>parseInt(match[1], 10)\<close>. The capture is a run of digits, so the
      result is a non-negative number; \<^verbatim>\<open>NaN\<close> would act as 0 in \<^verbatim>\<open>slice\<close>.\<close>
  "extractRowsCommand query =
     first_match (\<lambda>(type, regex).
        case regex query of None \<Rightarrow> None
        | Some capture \<Rightarrow>
            Some (type, case parseInt capture of None \<Rightarrow> 0 | Some k \<Rightarrow> nat k)) patterns"

section \<open>Free-text search\<close>

definition stopWords :: "jstring list" where
  "stopWords = map js
     [''show'', ''list'', ''display'', ''what'', ''where'', ''find'', ''me'', ''the'', ''a'', ''an'',
      ''and'', ''or'', ''but'', ''in'', ''on'', ''at'', ''to'', ''for'', ''of'', ''with'', ''by'',
      ''table'', ''data'', ''information'', ''about'', ''tell'', ''give'', ''get'', ''search'',
      ''top'', ''bottom'', ''first'', ''last'', ''rows'']"

function split_spaces :: "jstring \<Rightarrow> jstring \<Rightarrow> jstring list" where
  \<comment> \<open>\<^verbatim>\<open>split(/\s+/)\<close>, the first argument being the piece read so far: white space at
      either end of the input leaves an empty piece there\<close>
  "split_spaces piece [] = [piece]"
| "split_spaces piece (c # cs) =
     (if is_space c then piece # split_spaces [] (dropWhile is_space cs)
      else split_spaces (piece @ [c]) cs)"
  by pat_completeness auto
termination
  by (relation "measure (\<lambda>(piece, s). length s)")
     (auto simp: length_dropWhile_le less_Suc_eq_le)

definition extractSearchTerms :: "(jstring \<Rightarrow> jstring) \<Rightarrow> jstring \<Rightarrow> jstring list" where
  "extractSearchTerms toLowerCase query =
     filter (\<lambda>term. 2 < length term \<and> term \<notin> set stopWords
               \<and> \<not> (term \<noteq> [] \<and> list_all is_digit term))
       (split_spaces []
          (map (\<lambda>c. if c \<in> {46, 44, 63, 33} then 32 else c) (toLowerCase query)))"

fun starts_with :: "jstring \<Rightarrow> jstring \<Rightarrow> bool" where
  "starts_with s [] = True"
| "starts_with [] (d # ds) = False"
| "starts_with (c # cs) (d # ds) = (c = d \<and> starts_with cs ds)"

fun includes_str :: "jstring \<Rightarrow> jstring \<Rightarrow> bool" where
  \<comment> \<open>\<^verbatim>\<open>s.includes(t)\<close>\<close>
  "includes_str [] t = (t = [])"
| "includes_str (c # cs) t = (starts_with (c # cs) t \<or> includes_str cs t)"

definition own_columns :: "DataEntry \<Rightarrow> row" where
  \<comment> \<open>the entry's properties other than \<^verbatim>\<open>content\<close> and \<^verbatim>\<open>source\<close>\<close>
  "own_columns entry =
     filter (\<lambda>(key, v). key \<noteq> js ''content'' \<and> key \<noteq> js ''source'') (columns entry)"

definition searchLocalData ::
  "(jstring \<Rightarrow> jstring) \<Rightarrow> jstring list \<Rightarrow> slot list \<Rightarrow> jexn + slot list" where
  "searchLocalData toLowerCase terms cache =
     (if terms = [] then Inr []
      else filter_entries (\<lambda>entry.
             let entryText = join (js '' '')
                   (map (\<lambda>(key, v). toLowerCase (render v)) (own_columns entry))
             in list_ex (\<lambda>term. includes_str entryText (toLowerCase term)) terms) cache)"


section \<open>Search: searchKnowledgeBase\<close>

record SearchDetails =
  totalRecords :: nat
  searchTerms :: "jstring list"
  conditions :: "(jstring \<times> jstring) list"
  requestedColumns :: "jstring list"
  availableColumns :: "jstring list"
  sources :: "jstring list"

record SearchResult =
  result_text :: jstring    \<comment> \<open>the property \<^verbatim>\<open>text\<close>\<close>
  foundInKnowledgeBase :: bool
  searchDetails :: SearchDetails

definition no_details :: "jstring list \<Rightarrow> SearchDetails" where
  "no_details terms =
     \<lparr>totalRecords = 0, searchTerms = terms, conditions = [], requestedColumns = [],
      availableColumns = [], sources = []\<rparr>"

definition no_data_result :: SearchResult where
  "no_data_result =
     \<lparr>result_text = js ''No data available to display.'', foundInKnowledgeBase = False,
      searchDetails = no_details []\<rparr>"

definition no_match_result :: "jstring list \<Rightarrow> SearchResult" where
  "no_match_result terms =
     \<lparr>result_text = js ''No matching records found.'', foundInKnowledgeBase = False,
      searchDetails = no_details terms\<rparr>"

definition error_result :: SearchResult where
  "error_result =
     \<lparr>result_text = js ''An error occurred while searching the knowledge base.'',
      foundInKnowledgeBase = False, searchDetails = no_details []\<rparr>"

definition headers_of :: "slot \<Rightarrow> jexn + jstring list" where
  \<comment> \<open>\<^verbatim>\<open>Object.keys(entry).filter(key => key !== 'content' && key !== 'source')\<close>;
      \<^verbatim>\<open>Object.keys(null)\<close> throws\<close>
  "headers_of x = (case x of JNull \<Rightarrow> Inl TypeError | Entry e \<Rightarrow> Inr (map fst (own_columns e)))"

fun sources_of :: "slot list \<Rightarrow> jexn + jstring list" where
  \<comment> \<open>\<^verbatim>\<open>rows.map(entry => entry.source)\<close>\<close>
  "sources_of [] = Inr []"
| "sources_of (JNull # rest) = Inl TypeError"
| "sources_of (Entry e # rest) =
     (case sources_of rest of Inl err \<Rightarrow> Inl err | Inr found \<Rightarrow> Inr (source e # found))"

definition distinct_in_order :: "jstring list \<Rightarrow> jstring list" where
  \<comment> \<open>\<^verbatim>\<open>[...new Set(xs)]\<close>: each value once, in the order of first appearance\<close>
  "distinct_in_order xs = foldl (\<lambda>seen x. if x \<in> set seen then seen else seen @ [x]) [] xs"

definition select_rows :: "row_type \<Rightarrow> nat \<Rightarrow> slot list \<Rightarrow> slot list" where
  \<comment> \<open>\<^verbatim>\<open>type === 'top' ? cachedData.slice(0, count) : cachedData.slice(-count)\<close>\<close>
  "select_rows type count cache =
     (if type = Top then slice 0 count cache else slice_last count cache)"

definition row_command_result :: "row_type \<Rightarrow> slot list \<Rightarrow> jexn + SearchResult" where
  \<comment> \<open>what the row-command branch returns for the selected \<open>rows\<close>\<close>
  "row_command_result type rows =
     (case rows of
        [] \<Rightarrow> Inr no_data_result
      | first # others \<Rightarrow>
          (case headers_of first of
             Inl err \<Rightarrow> Inl err
           | Inr headers \<Rightarrow>
               (case sources_of rows of
                  Inl err \<Rightarrow> Inl err
                | Inr found \<Rightarrow>
                    Inr \<lparr>result_text = js ''Showing '' @ (if type = Top then js ''first'' else js ''last'')
                            @ js '' '' @ toString (length rows) @ js '' rows from the dataset.'',
                         foundInKnowledgeBase = True,
                         searchDetails =
                           \<lparr>totalRecords = length rows, searchTerms = [], conditions = [],
                            requestedColumns = headers, availableColumns = headers,
                            sources = distinct_in_order found\<rparr>\<rparr>)))"

definition free_text_result ::
  "(jstring \<Rightarrow> jstring) \<Rightarrow> jstring \<Rightarrow> slot list \<Rightarrow> jexn + SearchResult" where
  "free_text_result toLowerCase query cache =
     (let terms = extractSearchTerms toLowerCase query in
      case searchLocalData toLowerCase terms cache of
        Inl err \<Rightarrow> Inl err
      | Inr relevantEntries \<Rightarrow>
          (case relevantEntries of
             [] \<Rightarrow> Inr (no_match_result terms)
           | JNull # others \<Rightarrow> Inl TypeError
           | Entry e # others \<Rightarrow>
               (case headers_of (Entry e) of
                  Inl err \<Rightarrow> Inl err
                | Inr headers \<Rightarrow>
                    (case sources_of relevantEntries of
                       Inl err \<Rightarrow> Inl err
                     | Inr found \<Rightarrow>
                         Inr \<lparr>result_text = content e, foundInKnowledgeBase = True,
                              searchDetails =
                                \<lparr>totalRecords = length relevantEntries, searchTerms = terms,
                                 conditions = [], requestedColumns = headers,
                                 availableColumns = headers,
                                 sources = distinct_in_order found\<rparr>\<rparr>))))"

definition search_body ::
  "(jstring \<Rightarrow> jstring) \<Rightarrow> jstring \<Rightarrow> state \<Rightarrow> jexn + SearchResult" where
  \<comment> \<open>the body of the \<^verbatim>\<open>try\<close> of \<^verbatim>\<open>searchKnowledgeBase\<close>\<close>
  "search_body toLowerCase query s =
     (case extractRowsCommand query of
        Some (type, count) \<Rightarrow> row_command_result type (select_rows type count (cachedData s))
      | None \<Rightarrow> free_text_result toLowerCase query (cachedData s))"

definition searchKnowledgeBase ::
  "(jstring \<Rightarrow> jstring) \<Rightarrow> jstring \<Rightarrow> state \<Rightarrow> jexn + SearchResult" where
  \<comment> \<open>\<open>Inr\<close>: the promise resolves with the result; \<open>Inl\<close>: it rejects\<close>
  "searchKnowledgeBase toLowerCase query s =
     (case search_body toLowerCase query s of
        Inr result \<Rightarrow> Inr result
      | Inl error \<Rightarrow> Inr error_result)"

definition ascii_lower :: "jstring \<Rightarrow> jstring" where
  \<comment> \<open>\<^verbatim>\<open>toLowerCase\<close> as it acts on ASCII text; used where a concrete host function is needed\<close>
  "ascii_lower s = map (\<lambda>c. if 65 \<le> c \<and> c \<le> 90 then c + 32 else c) s"


section \<open>Vocabulary of the properties\<close>

definition chunk_count :: "nat \<Rightarrow> nat" where
  \<comment> \<open>the count the specification gives: \<open>ceil (n / itemsPerChunk)\<close>, in integers\<close>
  "chunk_count n = (n + itemsPerChunk n - 1) div itemsPerChunk n"

definition quiet :: "faults \<Rightarrow> nat \<Rightarrow> bool" where
  \<comment> \<open>no mutating call from the \<open>n\<close>-th on throws\<close>
  "quiet faults n \<longleftrightarrow> (\<forall>k. n \<le> k \<longrightarrow> \<not> faults k)"

definition same_memory :: "state \<Rightarrow> state \<Rightarrow> bool" where
  \<comment> \<open>the module variables are as before and no call on the store was taken back\<close>
  "same_memory s t \<longleftrightarrow>
     cachedData t = cachedData s \<and> userUploadedFiles t = userUploadedFiles s \<and> calls s \<le> calls t"

definition fresh_process :: "state \<Rightarrow> state" where
  \<comment> \<open>a new process over the same store: the module variables at their initial values\<close>
  "fresh_process s = s\<lparr>cachedData := [], userUploadedFiles := []\<rparr>"

definition from_source :: "jstring \<Rightarrow> slot \<Rightarrow> bool" where
  \<comment> \<open>the element is a record whose \<^verbatim>\<open>source\<close> is \<open>src\<close>\<close>
  "from_source src x = (case x of JNull \<Rightarrow> False | Entry e \<Rightarrow> source e = src)"

definition all_records :: "slot list \<Rightarrow> bool" where
  \<comment> \<open>every element is a record, as the declared type says\<close>
  "all_records cache \<longleftrightarrow> list_all (\<lambda>x. x \<noteq> JNull) cache"

definition fail_at :: "nat list \<Rightarrow> faults" where
  \<comment> \<open>a store whose mutating calls with the listed numbers throw, and no others\<close>
  "fail_at ks k \<longleftrightarrow> k \<in> set ks"

definition marker :: "nat \<Rightarrow> jstring" where
  \<comment> \<open>the citation marker with the number \<open>n\<close>\<close>
  "marker n = [12304] @ toString n @ js '':1'' @ [8224] @ js ''source'' @ [12305]"

text \<open>Concrete inputs for the examples.\<close>

definition sample :: "jstring \<Rightarrow> jstring \<Rightarrow> slot" where
  "sample src v = Entry \<lparr>columns = [(js ''drug'', Str v)], source = src, content = js ''drug: '' @ v\<rparr>"

definition empty_storage :: storage where
  "empty_storage = \<lparr>files_item = None, count_item = None, chunk_item = Map.empty\<rparr>"

definition three_records :: state where
  "three_records =
     \<lparr>cachedData = [sample (js ''a.csv'') (js ''x''), sample (js ''a.csv'') (js ''y''),
                    sample (js ''a.csv'') (js ''z'')],
      userUploadedFiles = [js ''a.csv''], localStorage = empty_storage, calls = 0\<rparr>"

definition null_cache :: state where
  "null_cache = \<lparr>cachedData = [JNull], userUploadedFiles = [], localStorage = empty_storage, calls = 0\<rparr>"

definition twenty_records :: state where
  "twenty_records =
     \<lparr>cachedData = map (\<lambda>i. sample (js ''a.csv'') (toString i)) [0 ..< 20],
      userUploadedFiles = [js ''a.csv''], localStorage = empty_storage, calls = 0\<rparr>"

definition empty_state :: state where
  "empty_state = \<lparr>cachedData = [], userUploadedFiles = [], localStorage = empty_storage, calls = 0\<rparr>"

definition backend_one_row :: csv_arg where
  "backend_one_row = Path (js ''ttd_drug_disease.csv'') (Some [[(js ''drug'', Str (js ''x''))]])"

definition one_row_csv :: upload where
  "one_row_csv = \<lparr>name = js ''a.csv'', parsed = Some [[(js ''drug'', Str (js ''x''))]]\<rparr>"

definition one_row_xlsx :: upload where
  "one_row_xlsx = \<lparr>name = js ''b.xlsx'', parsed = Some [[(js ''drug'', Str (js ''x''))]]\<rparr>"

definition two_row_csv :: upload where
  "two_row_csv = \<lparr>name = js ''a.csv'',
     parsed = Some [[(js ''drug'', Str (js ''x''))], [(js ''drug'', Str (js ''y''))]]\<rparr>"

definition csv_entry :: "jstring \<Rightarrow> nat \<Rightarrow> jstring \<Rightarrow> DataEntry" where
  \<comment> \<open>the record the CSV path makes of the one-column row \<open>drug = v\<close> at position \<open>n\<close>\<close>
  "csv_entry src n v =
     \<lparr>columns = [(js ''drug'', Str v)], source = src,
      content = [12304] @ toString n @ js '':1'' @ [8224] @ js ''source'' @ [12305]
                @ js ''drug: '' @ v\<rparr>"

definition two_row_batch :: "DataEntry list" where
  "two_row_batch = [csv_entry (js ''a.csv'') 1 (js ''x''), csv_entry (js ''a.csv'') 2 (js ''y'')]"

definition after_first_ingest :: state where
  "after_first_ingest =
     \<lparr>cachedData = map Entry two_row_batch, userUploadedFiles = [js ''a.csv''],
      localStorage = \<lparr>files_item = Some (FilesJson [js ''a.csv'']), count_item = Some [50],
         chunk_item = [0 \<mapsto> ChunkLz [Entry (csv_entry (js ''a.csv'') 1 (js ''x''))],
                       1 \<mapsto> ChunkLz [Entry (csv_entry (js ''a.csv'') 2 (js ''y''))]]\<rparr>,
      calls = 4\<rparr>"

definition retry_chunk :: "slot list \<Rightarrow> slot list" where
  \<comment> \<open>what the \<^verbatim>\<open>catch\<close> of a chunk write stores instead:
      \<^verbatim>\<open>chunk.slice(0, Math.floor(chunk.length * 0.7))\<close>\<close>
  "retry_chunk chunk = slice 0 (floor_70_percent (length chunk)) chunk"

definition staged :: "upload \<Rightarrow> DataEntry list \<Rightarrow> state \<Rightarrow> state" where
  \<comment> \<open>the module variables as \<^verbatim>\<open>processFile\<close> leaves them for \<^verbatim>\<open>saveCachedData\<close>: the
      records of the file's name filtered out, the new batch appended, the name pushed
      unless it is there\<close>
  "staged f batch s =
     s\<lparr>cachedData := filter (\<lambda>x. \<not> from_source (name f) x) (cachedData s) @ map Entry batch,
       userUploadedFiles := (if name f \<in> set (userUploadedFiles s) then userUploadedFiles s
                             else userUploadedFiles s @ [name f])\<rparr>"

definition sample_entry :: "jstring \<Rightarrow> jstring \<Rightarrow> DataEntry" where
  \<comment> \<open>the record inside \<open>sample src v\<close>\<close>
  "sample_entry src v = \<lparr>columns = [(js ''drug'', Str v)], source = src, content = js ''drug: '' @ v\<rparr>"

definition stale_store :: state where
  \<comment> \<open>an empty cache over a store that holds a chunk and no count\<close>
  "stale_store =
     \<lparr>cachedData = [], userUploadedFiles = [],
      localStorage = \<lparr>files_item = None, count_item = None,
                       chunk_item = [5 \<mapsto> ChunkLz [sample (js ''a.csv'') (js ''x'')]]\<rparr>,
      calls = 0\<rparr>"

definition twenty_copies :: state where
  "twenty_copies =
     \<lparr>cachedData = map (\<lambda>i. sample (js ''a.csv'') (js ''x'')) [0 ..< 20],
      userUploadedFiles = [js ''a.csv''], localStorage = empty_storage, calls = 0\<rparr>"

definition three_others :: state where
  "three_others =
     \<lparr>cachedData = [sample (js ''a.csv'') (js ''p''), sample (js ''a.csv'') (js ''q''),
                    sample (js ''a.csv'') (js ''r'')],
      userUploadedFiles = [js ''a.csv''], localStorage = empty_storage, calls = 0\<rparr>"

section \<open>Properties of the partition\<close>


lemma below_ceil_iff:
  fixes k n p :: nat
  assumes "0 < p"
  shows "k < (n + p - 1) div p \<longleftrightarrow> k * p < n"
proof -
  have "k < (n + p - 1) div p \<longleftrightarrow> Suc k \<le> (n + p - 1) div p"
    by auto
  also have "\<dots> \<longleftrightarrow> Suc k * p \<le> n + p - 1"
    using assms by (simp only: less_eq_div_iff_mult_less_eq)
  also have "\<dots> \<longleftrightarrow> k * p < n"
    using assms by auto
  finally show ?thesis .
qed

lemma ceiling_div_nat:
  fixes n p :: nat
  assumes "0 < p"
  shows "\<lceil>real n / real p\<rceil> = int ((n + p - 1) div p)"
proof (rule ceiling_unique)
  let ?m = "(n + p - 1) div p"
  have "\<not> ?m * p < n"
    using below_ceil_iff [OF assms, of ?m n] by simp
  then have "n \<le> ?m * p" by simp
  then have "real n \<le> real (?m * p)" by (simp only: of_nat_le_iff)
  then show "real n / real p \<le> of_int (int ?m)"
    using assms by (simp add: divide_le_eq)
  show "of_int (int ?m) - 1 < real n / real p"
  proof (cases ?m)
    case 0
    have "(- 1::real) < 0" by simp
    also have "(0::real) \<le> real n / real p" by simp
    finally show ?thesis by (simp only: 0 of_int_of_nat_eq of_nat_0 diff_0)
  next
    case (Suc k)
    then have "k < ?m" by simp
    then have "k * p < n"
      using below_ceil_iff [OF assms, of k n] by simp
    then have "real (k * p) < real n" by (simp only: of_nat_less_iff)
    then have "real k < real n / real p"
      using assms by (simp add: less_divide_eq)
    then show ?thesis using Suc by simp
  qed
qed

lemma chunk_loop_from:
  assumes "0 < length xs"
    and "k \<le> chunk_count (length xs)"
  shows "chunk_loop (k * itemsPerChunk (length xs)) xs acc =
         acc @ map (\<lambda>j. slice (j * itemsPerChunk (length xs))
                              (j * itemsPerChunk (length xs) + itemsPerChunk (length xs)) xs)
                   [k ..< chunk_count (length xs)]"
  using assms(2)
proof (induction "chunk_count (length xs) - k" arbitrary: k acc)
  case 0
  then have "k = chunk_count (length xs)" by simp
  then have "\<not> k * itemsPerChunk (length xs) < length xs"
    using below_ceil_iff [OF itemsPerChunk_pos [OF assms(1)], of k "length xs"]
    by (simp add: chunk_count_def)
  then show ?case
    using \<open>k = chunk_count (length xs)\<close> by (subst chunk_loop.simps) simp
next
  case (Suc d)
  then have less: "k < chunk_count (length xs)" by simp
  then have "k * itemsPerChunk (length xs) < length xs"
    using below_ceil_iff [OF itemsPerChunk_pos [OF assms(1)], of k "length xs"]
    by (simp add: chunk_count_def)
  moreover have "chunk_loop (Suc k * itemsPerChunk (length xs)) xs
       (acc @ [slice (k * itemsPerChunk (length xs))
                 (k * itemsPerChunk (length xs) + itemsPerChunk (length xs)) xs]) =
     (acc @ [slice (k * itemsPerChunk (length xs))
                 (k * itemsPerChunk (length xs) + itemsPerChunk (length xs)) xs]) @
       map (\<lambda>j. slice (j * itemsPerChunk (length xs))
                              (j * itemsPerChunk (length xs) + itemsPerChunk (length xs)) xs)
                   [Suc k ..< chunk_count (length xs)]"
    using Suc less by (intro Suc.hyps(1)) auto
  ultimately show ?case
    using less by (subst chunk_loop.simps) (simp add: upt_conv_Cons add.commute)
qed

lemma make_chunks_eq:
  "make_chunks xs =
     map (\<lambda>j. slice (j * itemsPerChunk (length xs))
                    (j * itemsPerChunk (length xs) + itemsPerChunk (length xs)) xs)
         [0 ..< chunk_count (length xs)]"
proof (cases "xs = []")
  case True
  then show ?thesis
    by (simp add: make_chunks_def chunk_loop.simps chunk_count_def itemsPerChunk_def MAX_CHUNKS_def)
next
  case False
  then show ?thesis
    using chunk_loop_from [of xs 0 "[]"] by (simp add: make_chunks_def)
qed

lemma length_make_chunks: "length (make_chunks xs) = chunk_count (length xs)"
  by (simp add: make_chunks_eq)

lemma chunk_count_le: "chunk_count n \<le> MAX_CHUNKS"
proof (cases "n = 0")
  case True
  then show ?thesis by (simp add: chunk_count_def itemsPerChunk_def MAX_CHUNKS_def)
next
  case False
  then have pos: "0 < itemsPerChunk n" by (simp add: itemsPerChunk_pos)
  have "n \<le> MAX_CHUNKS * itemsPerChunk n"
    unfolding itemsPerChunk_def MAX_CHUNKS_def by presburger
  then have "\<not> MAX_CHUNKS * itemsPerChunk n < n" by simp
  then have "\<not> MAX_CHUNKS < chunk_count n"
    using below_ceil_iff [OF pos, of MAX_CHUNKS n] by (simp add: chunk_count_def)
  then show ?thesis by simp
qed

lemma concat_slices:
  "concat (map (\<lambda>j. slice (j * p) (j * p + p) xs) [0 ..< m]) = take (m * p) xs"
proof (induction m)
  case 0
  then show ?case by simp
next
  case (Suc m)
  have "take (m * p) xs @ take p (drop (m * p) xs) = take (m * p + p) xs"
    by (simp add: take_add)
  with Suc show ?case
    by (simp add: slice_def add.commute)
qed

lemma concat_make_chunks: "concat (make_chunks xs) = xs"
proof (cases "xs = []")
  case True
  then show ?thesis
    by (simp add: make_chunks_def chunk_loop.simps)
next
  case False
  then have pos: "0 < itemsPerChunk (length xs)" by (simp add: itemsPerChunk_pos)
  have "\<not> chunk_count (length xs) * itemsPerChunk (length xs) < length xs"
    using below_ceil_iff [OF pos, of "chunk_count (length xs)" "length xs"]
    by (simp add: chunk_count_def)
  then have "length xs \<le> chunk_count (length xs) * itemsPerChunk (length xs)" by simp
  then show ?thesis
    using concat_slices [of "itemsPerChunk (length xs)" xs "chunk_count (length xs)"]
    by (simp add: make_chunks_eq)
qed

section \<open>Evaluation on concrete inputs\<close>


lemma bit_length_numeral:
  "bit_length (numeral (Num.Bit0 k)) = Suc (bit_length (numeral k))"
  "bit_length (numeral (Num.Bit1 k)) = Suc (bit_length (numeral k))"
  "bit_length (Suc 0) = Suc 0"
  "bit_length 0 = 0"
  by (subst bit_length.simps, simp add: bit_length.simps)+

lemma floor_percent_small:
  "floor_60_percent 0 = 0" "floor_60_percent (Suc 0) = 0" "floor_60_percent 2 = 1" "floor_60_percent 3 = 1"
  "floor_70_percent 0 = 0" "floor_70_percent (Suc 0) = 0" "floor_70_percent 2 = 1" "floor_70_percent 3 = 2"
  by (simp_all add: floor_60_percent_def floor_70_percent_def mul_floor_def bit_length_numeral Let_def)

lemma floor_percent_Suc:
  "floor_60_percent (Suc (Suc 0)) = 1" "floor_60_percent (Suc (Suc (Suc 0))) = 1"
  "floor_70_percent (Suc (Suc 0)) = 1" "floor_70_percent (Suc (Suc (Suc 0))) = 2"
  using floor_percent_small by (simp_all add: numeral_2_eq_2 numeral_3_eq_3)

lemma saveCachedData_numeral:
  "saveCachedData (numeral n) faults s =
     (case save_pass faults s of
        (Inr u, s') \<Rightarrow> (Inr u, s')
      | (Inl error, s') \<Rightarrow>
          (case saveCachedData (pred_numeral n) faults (prune s') of
             (Inr u, s'') \<Rightarrow> (Inr u, s'')
           | (Inl retryError, s'') \<Rightarrow> (Inr (), s'')))"
  by (simp add: numeral_eq_Suc saveCachedData.simps)


lemma make_chunks_3: "make_chunks [a, b, c] = [[a], [b], [c]]"
  by (simp add: make_chunks_def chunk_loop.simps itemsPerChunk_def MAX_CHUNKS_def slice_def)

lemma make_chunks_1: "make_chunks [a] = [[a]]"
  by (simp add: make_chunks_def chunk_loop.simps itemsPerChunk_def MAX_CHUNKS_def slice_def)

lemma toString_small: "toString 0 = [48]" "toString (Suc 0) = [49]" "toString 2 = [50]" "toString 3 = [51]"
  by (simp_all add: toString.simps)

lemma js_0: "js ''0'' = [48]"
  by (simp add: js_def)

lemma parseInt_0: "parseInt [48] = Some 0" "parseInt [49] = Some 1"
  by (simp_all add: parseInt_def is_space_def is_digit_def digits_value_def Let_def)

lemma stale_example:
  "saveCachedData 2 (fail_at [3, 4]) three_records =
     (Inr (), \<lparr>cachedData = [sample (js ''a.csv'') (js ''z'')],
      userUploadedFiles = [js ''a.csv''],
      localStorage = \<lparr>files_item = Some (FilesJson [js ''a.csv'']), count_item = Some [49],
         chunk_item = [0 \<mapsto> ChunkLz [sample (js ''a.csv'') (js ''z'')],
                       1 \<mapsto> ChunkLz [sample (js ''a.csv'') (js ''y'')]]\<rparr>,
      calls = 8\<rparr>)"
  by (simp add: fail_at_def saveCachedData_numeral saveCachedData.simps floor_percent_Suc three_records_def empty_storage_def save_pass_def and_then_def
        setItem_files_def setItem_count_def setItem_chunk_def write_chunk_def mutate_def
        stored_chunk_count_def js_0 parseInt_0 make_chunks_3 make_chunks_1 prune_def
        floor_percent_small slice_last_def slice_def toString_small fun_upd_twist)

section \<open>A persist that meets no failure\<close>


lemma quiet_mono: "quiet faults n \<Longrightarrow> n \<le> m \<Longrightarrow> quiet faults m"
  by (simp add: quiet_def)

lemma mutate_quiet:
  assumes "quiet faults (calls s)"
  shows "mutate faults f s = (Inr (), s\<lparr>localStorage := f (localStorage s), calls := Suc (calls s)\<rparr>)"
  using assms by (simp add: mutate_def quiet_def)

lemma remove_chunks_quiet:
  assumes "quiet faults (calls s)"
  shows "remove_chunks faults is s =
    (Inr (), s\<lparr>localStorage := (localStorage s)\<lparr>chunk_item :=
                  (\<lambda>i. if i \<in> set is then None else chunk_item (localStorage s) i)\<rparr>,
              calls := calls s + length is\<rparr>)"
  using assms
proof (induction "is" arbitrary: s)
  case Nil
  then show ?case by simp
next
  case (Cons i rest)
  note later = quiet_mono [OF Cons.prems]
  show ?case
    by (simp add: and_then_def removeItem_chunk_def mutate_quiet Cons.prems Cons.IH later fun_eq_iff)
qed

lemma write_chunk_quiet:
  assumes "quiet faults (calls s)"
  shows "write_chunk faults index chunk s =
    (Inr (), s\<lparr>localStorage := (localStorage s)\<lparr>chunk_item :=
                  (chunk_item (localStorage s))(index \<mapsto> ChunkLz chunk)\<rparr>,
              calls := Suc (calls s)\<rparr>)"
  using assms by (simp add: write_chunk_def setItem_chunk_def mutate_quiet)

lemma write_chunks_quiet:
  assumes "quiet faults (calls s)"
  shows "write_chunks faults index chunks s =
    (Inr (), s\<lparr>localStorage := (localStorage s)\<lparr>chunk_item :=
                  (\<lambda>i. if index \<le> i \<and> i < index + length chunks
                       then Some (ChunkLz (chunks ! (i - index)))
                       else chunk_item (localStorage s) i)\<rparr>,
              calls := calls s + length chunks\<rparr>)"
  using assms
proof (induction chunks arbitrary: s index)
  case Nil
  have "(\<lambda>i. if index \<le> i \<and> i < index + length ([] :: slot list list)
             then Some (ChunkLz (([] :: slot list list) ! (i - index)))
             else chunk_item (localStorage s) i) = chunk_item (localStorage s)"
    by (auto simp: fun_eq_iff)
  then show ?case by simp
next
  case (Cons chunk rest)
  note later = quiet_mono [OF Cons.prems]
  show ?case
    by (auto simp: and_then_def write_chunk_quiet Cons.prems Cons.IH later fun_eq_iff
          nth_Cons' Suc_diff_Suc
        intro!: arg_cong2 [where f = "\<lambda>a b. s\<lparr>localStorage := a, calls := b\<rparr>"]
                arg_cong [where f = "\<lambda>a. (localStorage s)\<lparr>chunk_item := a\<rparr>"])
qed

lemma toString_digits: "list_all is_digit (toString n) \<and> toString n \<noteq> []"
proof (induction n rule: toString.induct)
  case (1 n)
  show ?case
  proof (cases "n < 10")
    case True
    then show ?thesis
      by (subst (1 2) toString.simps) (simp add: is_digit_def)
  next
    case False
    have "n mod 10 < 10" by simp
    then have "is_digit (48 + n mod 10)"
      unfolding is_digit_def by linarith
    with False 1 show ?thesis
      by (subst (1 2) toString.simps) simp
  qed
qed

lemma digits_value_toString: "digits_value (toString n) = n"
proof (induction n rule: toString.induct)
  case (1 n)
  show ?case
  proof (cases "n < 10")
    case True
    then show ?thesis
      by (subst toString.simps) (simp add: digits_value_def)
  next
    case False
    with 1 have "digits_value (toString (n div 10)) = n div 10" by simp
    with False show ?thesis
      by (subst toString.simps) (simp add: digits_value_def)
  qed
qed

lemma digit_not_space: "is_digit c \<Longrightarrow> \<not> is_space c"
  by (auto simp: is_digit_def is_space_def)

lemma parseInt_toString: "parseInt (toString n) = Some (int n)"
proof -
  obtain c cs where shape: "toString n = c # cs"
    using toString_digits [of n] by (cases "toString n") auto
  have digits: "list_all is_digit (c # cs)"
    using toString_digits [of n] shape by simp
  then have c: "is_digit c" by simp
  then have "\<not> is_space c" by (rule digit_not_space)
  moreover have "c \<noteq> 45" "c \<noteq> 43"
    using c by (auto simp: is_digit_def)
  moreover have "takeWhile is_digit (c # cs) = c # cs"
    using digits by (simp add: list_all_iff)
  moreover have "digits_value (c # cs) = n"
    using digits_value_toString [of n] shape by simp
  ultimately show ?thesis
    by (simp add: parseInt_def shape Let_def)
qed

lemma stored_chunk_count_toString:
  "count_item st = Some (toString m) \<Longrightarrow> stored_chunk_count st = m"
  using toString_digits [of m] by (simp add: stored_chunk_count_def parseInt_toString)

lemma save_pass_quiet:
  assumes "quiet faults (calls s)"
  shows "save_pass faults s =
    (Inr (), s\<lparr>localStorage :=
                \<lparr>files_item = Some (FilesJson (userUploadedFiles s)),
                 count_item = Some (toString (length (make_chunks (cachedData s)))),
                 chunk_item = (\<lambda>i. if i < length (make_chunks (cachedData s))
                     then Some (ChunkLz (make_chunks (cachedData s) ! i))
                     else if i < stored_chunk_count (localStorage s) then None
                     else chunk_item (localStorage s) i)\<rparr>,
              calls := calls s + stored_chunk_count (localStorage s)
                         + length (make_chunks (cachedData s)) + 2\<rparr>)"
proof -
  note later = quiet_mono [OF assms]
  have old: "stored_chunk_count (st\<lparr>files_item := x\<rparr>) = stored_chunk_count st" for st x
    by (simp add: stored_chunk_count_def)
  show ?thesis
    unfolding save_pass_def
    by (simp add: and_then_def setItem_files_def setItem_count_def mutate_quiet assms later old
          remove_chunks_quiet write_chunks_quiet fun_eq_iff)
qed

lemma load_chunks_reads: "snd (load_chunks st is data reads) = reads @ is"
  by (induction "is" arbitrary: data reads) (auto split: option.splits chunk_text.splits)

lemma load_chunks_all:
  assumes "\<forall>i \<in> set is. chunk_item st i = Some (ChunkLz (f i))"
  shows "fst (load_chunks st is data reads) = data @ concat (map f is)"
  using assms by (induction "is" arbitrary: data reads) auto

lemma saveCachedData_quiet:
  assumes "quiet faults (calls s)"
  shows "saveCachedData (Suc depth) faults s = save_pass faults s"
  by (simp add: saveCachedData.simps save_pass_quiet [OF assms])


lemma restore_after_quiet_save:
  assumes "quiet faults (calls s)"
  shows "fst (loadCachedData (fresh_process (snd (saveCachedData (Suc depth) faults s))))
         = (fresh_process (snd (saveCachedData (Suc depth) faults s)))
             \<lparr>cachedData := cachedData s, userUploadedFiles := userUploadedFiles s\<rparr>"
proof -
  let ?chunks = "make_chunks (cachedData s)"
  let ?st = "\<lparr>files_item = Some (FilesJson (userUploadedFiles s)),
                 count_item = Some (toString (length ?chunks)),
                 chunk_item = (\<lambda>i. if i < length ?chunks
                     then Some (ChunkLz (?chunks ! i))
                     else if i < stored_chunk_count (localStorage s) then None
                     else chunk_item (localStorage s) i)\<rparr>"
  have count: "stored_chunk_count ?st = length ?chunks"
    by (rule stored_chunk_count_toString) simp
  have "fst (load_chunks ?st [0 ..< length ?chunks] [] []) = [] @ concat (map (\<lambda>i. ?chunks ! i) [0 ..< length ?chunks])"
    by (rule load_chunks_all) simp
  also have "\<dots> = concat ?chunks"
    by (simp add: map_nth)
  finally have data: "fst (load_chunks ?st [0 ..< length ?chunks] [] []) = cachedData s"
    by (simp add: concat_make_chunks)
  show ?thesis
    by (simp add: saveCachedData_quiet [OF assms] save_pass_quiet [OF assms] loadCachedData_def
          fresh_process_def count data split_beta)
qed

section \<open>How much the pruning keeps\<close>

text \<open>
  An array has fewer than \<open>2 ^ 32\<close> elements. In that range the binary64 product rounds
  by less than one, which bounds \<^verbatim>\<open>Math.floor(n * 0.6)\<close> from both sides.
\<close>

lemma bit_length_le: "n < 2 ^ k \<Longrightarrow> bit_length n \<le> k"
proof (induction k arbitrary: n)
  case 0
  then show ?case by (simp add: bit_length.simps)
next
  case (Suc k)
  show ?case
  proof (cases "n = 0")
    case True
    then show ?thesis by (simp add: bit_length.simps)
  next
    case False
    from Suc.prems have "n div 2 < 2 ^ k" by auto
    then have "bit_length (n div 2) \<le> k" by (rule Suc.IH)
    with False show ?thesis by (subst bit_length.simps) simp
  qed
qed

lemma rounded_bounds:
  fixes N sh :: nat
  defines "q \<equiv> N div 2 ^ sh" and "r \<equiv> N mod 2 ^ sh"
  defines "M \<equiv> (if 2 ^ sh < 2 * r \<or> (2 * r = 2 ^ sh \<and> odd q) then q + 1 else q)"
  shows "2 * (M * 2 ^ sh) \<le> 2 * N + 2 ^ sh" and "N < M * 2 ^ sh + 2 ^ sh"
proof -
  have split: "N = q * 2 ^ sh + r"
    by (simp only: q_def r_def div_mult_mod_eq)
  have small: "r < 2 ^ sh"
    by (simp add: r_def)
  show "2 * (M * 2 ^ sh) \<le> 2 * N + 2 ^ sh"
  proof (cases "2 ^ sh < 2 * r \<or> (2 * r = 2 ^ sh \<and> odd q)")
    case True
    then have "(2::nat) ^ sh \<le> 2 * r" by auto
    moreover have "M = q + 1" using True by (simp add: M_def)
    ultimately show ?thesis
      by (simp add: split algebra_simps)
  next
    case False
    then have "M = q" by (simp add: M_def)
    then show ?thesis by (simp add: split)
  qed
  have "q \<le> M" by (simp add: M_def)
  then have "q * 2 ^ sh \<le> M * 2 ^ sh" by simp
  with small have "q * 2 ^ sh + r < M * 2 ^ sh + 2 ^ sh"
    by linarith
  then show "N < M * 2 ^ sh + 2 ^ sh"
    by (simp only: split [symmetric])
qed

lemma floor_60_percent_le:
  assumes "n < 2 ^ 32"
  shows "floor_60_percent n \<le> 3 * n div 5"
proof -
  define N where "N = n * 5404319552844595"
  define sh where "sh = bit_length N - 53"
  define q where "q = N div 2 ^ sh"
  define r where "r = N mod 2 ^ sh"
  define M where "M = (if 2 ^ sh < 2 * r \<or> (2 * r = 2 ^ sh \<and> odd q) then q + 1 else q)"
  have unfolded: "floor_60_percent n = (M * 2 ^ sh) div 2 ^ 53"
    by (simp add: floor_60_percent_def mul_floor_def Let_def N_def sh_def q_def r_def M_def)
  have "N < 2 ^ 32 * 2 ^ 53"
    unfolding N_def using assms
    by (intro mult_strict_mono) simp_all
  then have "N < 2 ^ 85" by simp
  then have "bit_length N \<le> 85" by (rule bit_length_le)
  then have "sh \<le> 32" by (simp add: sh_def)
  then have "(2::nat) ^ sh \<le> 2 ^ 32"
    by (intro power_increasing) simp_all
  moreover have "2 * (M * 2 ^ sh) \<le> 2 * N + 2 ^ sh"
    unfolding M_def q_def r_def by (rule rounded_bounds(1))
  ultimately have "2 * (M * 2 ^ sh) \<le> 2 * N + 2 ^ 32"
    by linarith
  then have "10 * (M * 2 ^ sh) \<le> 10 * N + 5 * 2 ^ 32" by linarith
  moreover have "10 * N = 2 * n * (3 * 2 ^ 53) - 2 * n"
    by (simp add: N_def algebra_simps)
  moreover have "3 * n + 1 \<le> 5 * (3 * n div 5 + 1)"
    by presburger
  ultimately have "M * 2 ^ sh < (3 * n div 5 + 1) * 2 ^ 53"
    by (simp add: algebra_simps)
  then have "(M * 2 ^ sh) div 2 ^ 53 < 3 * n div 5 + 1"
    by (simp add: div_less_iff_less_mult)
  then show ?thesis
    by (simp add: unfolded)
qed

lemma floor_60_percent_pos:
  assumes "2 \<le> n" and "n < 2 ^ 32"
  shows "0 < floor_60_percent n"
proof -
  define N where "N = n * 5404319552844595"
  define sh where "sh = bit_length N - 53"
  define q where "q = N div 2 ^ sh"
  define r where "r = N mod 2 ^ sh"
  define M where "M = (if 2 ^ sh < 2 * r \<or> (2 * r = 2 ^ sh \<and> odd q) then q + 1 else q)"
  have unfolded: "floor_60_percent n = (M * 2 ^ sh) div 2 ^ 53"
    by (simp add: floor_60_percent_def mul_floor_def Let_def N_def sh_def q_def r_def M_def)
  have "N < 2 ^ 32 * 2 ^ 53"
    unfolding N_def using assms
    by (intro mult_strict_mono) simp_all
  then have "N < 2 ^ 85" by simp
  then have "bit_length N \<le> 85" by (rule bit_length_le)
  then have "sh \<le> 32" by (simp add: sh_def)
  then have "(2::nat) ^ sh \<le> 2 ^ 32"
    by (intro power_increasing) simp_all
  moreover have "N < M * 2 ^ sh + 2 ^ sh"
    unfolding M_def q_def r_def by (rule rounded_bounds(2))
  moreover have "2 * 5404319552844595 \<le> N"
    unfolding N_def using assms(1) by simp
  ultimately have "2 ^ 53 \<le> M * 2 ^ sh"
    by simp
  then have "1 \<le> (M * 2 ^ sh) div 2 ^ 53"
    by (simp add: less_eq_div_iff_mult_less_eq)
  then show ?thesis
    by (simp add: unfolded)
qed

section \<open>Persist and restore under failures\<close>


lemma same_memory_refl: "same_memory s s"
  by (simp add: same_memory_def)

lemma same_memory_trans: "same_memory s t \<Longrightarrow> same_memory t u \<Longrightarrow> same_memory s u"
  by (simp add: same_memory_def)

lemma same_memory_mutate: "same_memory s (snd (mutate faults f s))"
  by (simp add: same_memory_def mutate_def)

lemma same_memory_and_then:
  assumes "same_memory s (snd r)" and "\<And>t. same_memory t (snd (f t))"
  shows "same_memory s (snd (and_then r f))"
proof (cases r)
  case (Pair res t)
  show ?thesis
  proof (cases res)
    case (Inl e)
    with Pair assms(1) show ?thesis by (simp add: and_then_def)
  next
    case (Inr u)
    with Pair assms(1) assms(2) [of t] show ?thesis
      by (auto simp: and_then_def intro: same_memory_trans)
  qed
qed

lemma same_memory_remove_chunks: "same_memory s (snd (remove_chunks faults is s))"
proof (induction "is" arbitrary: s)
  case Nil
  show ?case by (simp add: same_memory_refl)
next
  case (Cons i rest)
  show ?case
    by (simp add: same_memory_and_then removeItem_chunk_def same_memory_mutate Cons.IH)
qed

lemma same_memory_write_chunk: "same_memory s (snd (write_chunk faults index chunk s))"
proof (cases "setItem_chunk faults index chunk s")
  case (Pair res t)
  have "same_memory s (snd (setItem_chunk faults index chunk s))"
    by (simp add: setItem_chunk_def same_memory_mutate)
  then have first: "same_memory s t"
    by (simp add: Pair)
  show ?thesis
  proof (cases res)
    case (Inr u)
    with Pair first show ?thesis by (simp add: write_chunk_def)
  next
    case (Inl e)
    have "same_memory t (snd (setItem_chunk faults index
        (slice 0 (floor_70_percent (length chunk)) chunk) t))"
      by (simp add: setItem_chunk_def same_memory_mutate)
    with first Inl Pair show ?thesis
      by (auto simp: write_chunk_def intro: same_memory_trans)
  qed
qed

lemma same_memory_write_chunks: "same_memory s (snd (write_chunks faults index chunks s))"
proof (induction chunks arbitrary: s index)
  case Nil
  show ?case by (simp add: same_memory_refl)
next
  case (Cons chunk rest)
  show ?case
    by (simp add: same_memory_and_then same_memory_write_chunk Cons.IH)
qed

lemma same_memory_save_pass: "same_memory s (snd (save_pass faults s))"
  unfolding save_pass_def
  by (intro same_memory_and_then same_memory_remove_chunks same_memory_write_chunks)
     (simp_all add: setItem_files_def setItem_count_def same_memory_mutate)


lemma prune_suffix: "\<exists>k. cachedData (prune s) = drop k (cachedData s)"
proof (cases "floor_60_percent (length (cachedData s)) = 0")
  case True
  then have "cachedData (prune s) = drop 0 (cachedData s)"
    by (simp add: prune_def slice_last_def)
  then show ?thesis ..
next
  case False
  then have "cachedData (prune s) =
      drop (length (cachedData s) - floor_60_percent (length (cachedData s))) (cachedData s)"
    by (simp add: prune_def slice_last_def)
  then show ?thesis ..
qed

lemma saveCachedData_after_throw:
  assumes "fst (save_pass faults s) = Inl err"
  shows "saveCachedData (Suc depth) faults s =
         (Inr (), snd (saveCachedData depth faults (prune (snd (save_pass faults s)))))"
  using assms
  by (cases "save_pass faults s") (auto simp: saveCachedData.simps split: prod.splits sum.splits)

lemma saveCachedData_suffix:
  "\<exists>k. cachedData (snd (saveCachedData depth faults s)) = drop k (cachedData s)"
proof (induction depth arbitrary: s)
  case 0
  have "cachedData (snd (saveCachedData 0 faults s)) = drop 0 (cachedData s)"
    by (simp add: saveCachedData.simps)
  then show ?case ..
next
  case (Suc depth)
  obtain res s1 where pass: "save_pass faults s = (res, s1)"
    by (cases "save_pass faults s")
  have mem: "cachedData s1 = cachedData s"
    using same_memory_save_pass [of s faults] pass by (simp add: same_memory_def)
  show ?case
  proof (cases res)
    case (Inr u)
    with pass mem have "cachedData (snd (saveCachedData (Suc depth) faults s)) = drop 0 (cachedData s)"
      by (simp add: saveCachedData.simps)
    then show ?thesis ..
  next
    case (Inl e)
    obtain j where j: "cachedData (prune s1) = drop j (cachedData s1)"
      using prune_suffix by blast
    obtain k where k: "cachedData (snd (saveCachedData depth faults (prune s1)))
        = drop k (cachedData (prune s1))"
      using Suc.IH by blast
    have "fst (save_pass faults s) = Inl e"
      using pass Inl by simp
    then have "saveCachedData (Suc depth) faults s =
        (Inr (), snd (saveCachedData depth faults (prune s1)))"
      using saveCachedData_after_throw [of faults s e depth] pass by simp
    then have "cachedData (snd (saveCachedData (Suc depth) faults s)) = drop (k + j) (cachedData s)"
      using j k mem by (simp add: add.commute)
    then show ?thesis ..
  qed
qed

text \<open>
  C3. Whatever the cache holds and however the store behaves (any of its \<^verbatim>\<open>setItem\<close> and
  \<^verbatim>\<open>removeItem\<close> calls may throw, any number of times, also for ever), a call of
  \<^verbatim>\<open>saveCachedData\<close> that can be entered returns normally: the failure of a pass is caught
  by the outer \<^verbatim>\<open>catch\<close>, and whatever the retry throws, the overflow of the call stack
  included, by the inner one.
\<close>

theorem persist_never_throws:
  "fst (saveCachedData (Suc depth) faults s) = Inr ()"
  by (simp add: saveCachedData.simps split: prod.splits sum.splits)

text \<open>
  C9, as amended. If a pass of the persist operation throws, the in-memory cache itself is
  replaced by \<^verbatim>\<open>cachedData.slice(-Math.floor(cachedData.length * 0.6))\<close>, its last
  \<open>floor (0.6 * n)\<close> records, or all of them when that number is 0, and the whole save is
  retried on it. What the persist leaves in memory is always a final part of that slice, and
  it is that slice exactly when the retry meets no failure. So a persist failure takes at
  least 40% of the records of a cache of two or more from the memory of the session, not only
  from the store.
\<close>

theorem failed_pass_prunes_memory:
  assumes "fst (save_pass faults s) = Inl err"
  shows "saveCachedData (Suc depth) faults s =
           (Inr (), snd (saveCachedData depth faults (prune (snd (save_pass faults s)))))
    \<and> cachedData (prune (snd (save_pass faults s)))
          = slice_last (floor_60_percent (length (cachedData s))) (cachedData s)
    \<and> (\<exists>k. cachedData (snd (saveCachedData (Suc depth) faults s))
          = drop k (slice_last (floor_60_percent (length (cachedData s))) (cachedData s)))
    \<and> (quiet faults (calls (snd (save_pass faults s))) \<longrightarrow>
         cachedData (snd (saveCachedData (Suc (Suc depth)) faults s))
          = slice_last (floor_60_percent (length (cachedData s))) (cachedData s))
    \<and> (2 \<le> length (cachedData s) \<and> length (cachedData s) < 2 ^ 32 \<longrightarrow>
         2 * length (cachedData s)
          \<le> 5 * (length (cachedData s)
                  - length (cachedData (snd (saveCachedData (Suc depth) faults s)))))"
proof (intro conjI impI)
  let ?s1 = "snd (save_pass faults s)"
  have mem: "cachedData ?s1 = cachedData s"
    using same_memory_save_pass [of s faults] by (simp add: same_memory_def)
  show after: "saveCachedData (Suc depth) faults s =
           (Inr (), snd (saveCachedData depth faults (prune ?s1)))"
    using assms by (rule saveCachedData_after_throw)
  show pruned: "cachedData (prune ?s1)
          = slice_last (floor_60_percent (length (cachedData s))) (cachedData s)"
    by (simp add: prune_def mem)
  obtain k where "cachedData (snd (saveCachedData depth faults (prune ?s1)))
      = drop k (cachedData (prune ?s1))"
    using saveCachedData_suffix by blast
  then have "cachedData (snd (saveCachedData (Suc depth) faults s))
          = drop k (slice_last (floor_60_percent (length (cachedData s))) (cachedData s))"
    by (simp add: after pruned)
  then show "\<exists>k. cachedData (snd (saveCachedData (Suc depth) faults s))
          = drop k (slice_last (floor_60_percent (length (cachedData s))) (cachedData s))" ..
  {
    assume size: "2 \<le> length (cachedData s) \<and> length (cachedData s) < 2 ^ 32"
    let ?n = "length (cachedData s)"
    have pos: "0 < floor_60_percent ?n"
      using size by (intro floor_60_percent_pos) simp_all
    have le: "floor_60_percent ?n \<le> 3 * ?n div 5"
      using size by (intro floor_60_percent_le) simp
    have "length (slice_last (floor_60_percent ?n) (cachedData s)) = floor_60_percent ?n"
      using pos le by (simp add: slice_last_def)
    then have "length (cachedData (snd (saveCachedData (Suc depth) faults s))) \<le> 3 * ?n div 5"
      using le \<open>cachedData (snd (saveCachedData (Suc depth) faults s))
          = drop k (slice_last (floor_60_percent (length (cachedData s))) (cachedData s))\<close>
      by simp
    then show "2 * ?n \<le> 5 * (?n - length (cachedData (snd (saveCachedData (Suc depth) faults s))))"
      by linarith
  }
  assume "quiet faults (calls ?s1)"
  then have q: "quiet faults (calls (prune ?s1))"
    by (simp add: prune_def)
  have "cachedData (snd (saveCachedData (Suc depth) faults (prune ?s1))) = cachedData (prune ?s1)"
    using same_memory_save_pass [of "prune ?s1" faults]
    by (simp only: saveCachedData_quiet [OF q] same_memory_def)
  then show "cachedData (snd (saveCachedData (Suc (Suc depth)) faults s))
          = slice_last (floor_60_percent (length (cachedData s))) (cachedData s)"
    by (simp only: saveCachedData_after_throw [OF assms] snd_conv pruned)
qed

lemma first_write_fails:
  "saveCachedData 2 (fail_at [0]) three_records =
     (Inr (), \<lparr>cachedData = [sample (js ''a.csv'') (js ''z'')],
      userUploadedFiles = [js ''a.csv''],
      localStorage = \<lparr>files_item = Some (FilesJson [js ''a.csv'']), count_item = Some [49],
         chunk_item = [0 \<mapsto> ChunkLz [sample (js ''a.csv'') (js ''z'')]]\<rparr>,
      calls = 4\<rparr>)"
  by (simp add: fail_at_def saveCachedData_numeral saveCachedData.simps floor_percent_Suc three_records_def empty_storage_def save_pass_def and_then_def
        setItem_files_def setItem_count_def setItem_chunk_def write_chunk_def mutate_def
        stored_chunk_count_def js_0 parseInt_0 make_chunks_3 make_chunks_1 prune_def
        floor_percent_small slice_last_def slice_def toString_small fun_upd_twist)

lemma first_pass_throws:
  "save_pass (fail_at [0]) three_records = (Inl QuotaExceeded, three_records\<lparr>calls := 1\<rparr>)"
  by (simp add: fail_at_def three_records_def save_pass_def and_then_def setItem_files_def mutate_def)

theorem failed_pass_prunes_memory_witness:
  "fst (save_pass (fail_at [0]) three_records) = Inl QuotaExceeded
   \<and> quiet (fail_at [0]) (calls (snd (save_pass (fail_at [0]) three_records)))
   \<and> cachedData (snd (saveCachedData (Suc (Suc 0)) (fail_at [0]) three_records))
       = [sample (js ''a.csv'') (js ''z'')]
   \<and> 2 \<le> length (cachedData three_records) \<and> length (cachedData three_records) < 2 ^ 32
   \<and> 2 * length (cachedData three_records)
       \<le> 5 * (length (cachedData three_records)
               - length (cachedData (snd (saveCachedData (Suc (Suc 0)) (fail_at [0]) three_records))))"
proof -
  have throws: "fst (save_pass (fail_at [0]) three_records) = Inl QuotaExceeded"
    by (simp add: first_pass_throws)
  have q: "quiet (fail_at [0]) (calls (snd (save_pass (fail_at [0]) three_records)))"
    by (simp add: first_pass_throws quiet_def fail_at_def)
  have size: "2 \<le> length (cachedData three_records) \<and> length (cachedData three_records) < 2 ^ 32"
    by (simp add: three_records_def)
  have "cachedData (snd (saveCachedData (Suc (Suc 0)) (fail_at [0]) three_records))
          = slice_last (floor_60_percent (length (cachedData three_records))) (cachedData three_records)"
    using failed_pass_prunes_memory [OF throws, of 0] q by blast
  then have kept: "cachedData (snd (saveCachedData (Suc (Suc 0)) (fail_at [0]) three_records))
       = [sample (js ''a.csv'') (js ''z'')]"
    by (simp add: three_records_def floor_percent_Suc slice_last_def)
  have "2 * length (cachedData three_records)
       \<le> 5 * (length (cachedData three_records)
               - length (cachedData (snd (saveCachedData (Suc (Suc 0)) (fail_at [0]) three_records))))"
    using failed_pass_prunes_memory [OF throws, of "Suc 0"] size by blast
  with throws q kept size show ?thesis by blast
qed

text \<open>
  The bound of C9 as stated, at most 40% of the records removed, fails: of three records,
  with the write of the file list failing once, one record stays.
\<close>

theorem prune_beyond_40_percent_counterexample:
  "\<not> 5 * (length (cachedData three_records)
            - length (cachedData (snd (saveCachedData 2 (fail_at [0]) three_records))))
       \<le> 2 * length (cachedData three_records)"
  by (simp add: first_write_fails) (simp add: three_records_def)

text \<open>
  C5. Round trip: when no call on the store throws during the persist operation, restoring
  into a new process (both module variables at their initial values, the store as the persist
  left it) gives back the cache as it was before the persist, element by element: hence the
  same number of records and, for every source, the same records in the same order. The list
  of uploaded file names comes back too.
\<close>

theorem persist_restore_round_trip:
  assumes "quiet faults (calls s)"
  shows "fst (saveCachedData (Suc depth) faults s) = Inr ()
    \<and> cachedData (fst (loadCachedData (fresh_process (snd (saveCachedData (Suc depth) faults s)))))
          = cachedData s
    \<and> length (cachedData
          (fst (loadCachedData (fresh_process (snd (saveCachedData (Suc depth) faults s))))))
          = length (cachedData s)
    \<and> (\<forall>src. filter (from_source src) (cachedData
          (fst (loadCachedData (fresh_process (snd (saveCachedData (Suc depth) faults s))))))
          = filter (from_source src) (cachedData s))
    \<and> userUploadedFiles
          (fst (loadCachedData (fresh_process (snd (saveCachedData (Suc depth) faults s)))))
          = userUploadedFiles s"
  by (simp add: restore_after_quiet_save [OF assms])
     (simp add: saveCachedData_quiet [OF assms] save_pass_quiet [OF assms])

theorem persist_restore_round_trip_witness:
  "quiet (fail_at []) (calls three_records)
   \<and> cachedData (fst (loadCachedData (fresh_process
         (snd (saveCachedData (Suc 0) (fail_at []) three_records)))))
       = [sample (js ''a.csv'') (js ''x''), sample (js ''a.csv'') (js ''y''),
          sample (js ''a.csv'') (js ''z'')]"
proof -
  have q: "quiet (fail_at []) (calls three_records)"
    by (simp add: quiet_def fail_at_def)
  from persist_restore_round_trip [OF q, of 0]
  have "cachedData (fst (loadCachedData (fresh_process
         (snd (saveCachedData (Suc 0) (fail_at []) three_records))))) = cachedData three_records"
    by blast
  with q show ?thesis
    by (simp add: three_records_def)
qed

lemma restore_reads: "snd (loadCachedData t) = [] \<or>
    snd (loadCachedData t) = [0 ..< stored_chunk_count (localStorage t)]"
  by (simp add: loadCachedData_def split_beta load_chunks_reads
      split: option.splits files_text.splits)

section \<open>What a pass leaves in the store\<close>

text \<open>
  The effect of one pass on the store, whatever calls throw: the keys it may touch, and what
  sits under them when the pass returns.
\<close>

lemma mutate_cases:
  "(mutate faults f s = (Inr (), s\<lparr>localStorage := f (localStorage s), calls := Suc (calls s)\<rparr>))
   \<or> (mutate faults f s = (Inl QuotaExceeded, s\<lparr>calls := Suc (calls s)\<rparr>))"
  by (simp add: mutate_def)

lemma remove_chunks_store:
  "files_item (localStorage (snd (remove_chunks faults is s))) = files_item (localStorage s)
   \<and> count_item (localStorage (snd (remove_chunks faults is s))) = count_item (localStorage s)
   \<and> (\<forall>i. chunk_item (localStorage (snd (remove_chunks faults is s))) i = None
          \<or> chunk_item (localStorage (snd (remove_chunks faults is s))) i = chunk_item (localStorage s) i)
   \<and> (fst (remove_chunks faults is s) = Inr () \<longrightarrow>
        (\<forall>i \<in> set is. chunk_item (localStorage (snd (remove_chunks faults is s))) i = None))"
proof (induction "is" arbitrary: s)
  case Nil
  show ?case by simp
next
  case (Cons j rest)
  from mutate_cases [of faults "\<lambda>st. st\<lparr>chunk_item := (chunk_item st)(j := None)\<rparr>" s]
  show ?case
  proof
    assume ok: "mutate faults (\<lambda>st. st\<lparr>chunk_item := (chunk_item st)(j := None)\<rparr>) s
      = (Inr (), s\<lparr>localStorage := (localStorage s)\<lparr>chunk_item := (chunk_item (localStorage s))(j := None)\<rparr>,
                   calls := Suc (calls s)\<rparr>)"
    let ?s1 = "s\<lparr>localStorage := (localStorage s)\<lparr>chunk_item := (chunk_item (localStorage s))(j := None)\<rparr>,
                   calls := Suc (calls s)\<rparr>"
    have step: "remove_chunks faults (j # rest) s = remove_chunks faults rest ?s1"
      by (simp add: removeItem_chunk_def ok and_then_def)
    from Cons.IH [of ?s1] show ?thesis
      unfolding step by (auto split: if_splits)
  next
    assume "mutate faults (\<lambda>st. st\<lparr>chunk_item := (chunk_item st)(j := None)\<rparr>) s
      = (Inl QuotaExceeded, s\<lparr>calls := Suc (calls s)\<rparr>)"
    then show ?thesis
      by (simp add: removeItem_chunk_def and_then_def)
  qed
qed

lemma write_chunk_store:
  "files_item (localStorage (snd (write_chunk faults index chunk s))) = files_item (localStorage s)
   \<and> count_item (localStorage (snd (write_chunk faults index chunk s))) = count_item (localStorage s)
   \<and> (\<forall>i. i \<noteq> index \<longrightarrow>
          chunk_item (localStorage (snd (write_chunk faults index chunk s))) i
            = chunk_item (localStorage s) i)
   \<and> (fst (write_chunk faults index chunk s) = Inr () \<longrightarrow>
          chunk_item (localStorage (snd (write_chunk faults index chunk s))) index = Some (ChunkLz chunk)
          \<or> chunk_item (localStorage (snd (write_chunk faults index chunk s))) index
              = Some (ChunkLz (retry_chunk chunk)))"
  by (simp add: write_chunk_def setItem_chunk_def mutate_def retry_chunk_def)

lemma write_chunks_store:
  "files_item (localStorage (snd (write_chunks faults index chunks s))) = files_item (localStorage s)
   \<and> count_item (localStorage (snd (write_chunks faults index chunks s))) = count_item (localStorage s)
   \<and> (\<forall>i. i < index \<or> index + length chunks \<le> i \<longrightarrow>
          chunk_item (localStorage (snd (write_chunks faults index chunks s))) i
            = chunk_item (localStorage s) i)
   \<and> (fst (write_chunks faults index chunks s) = Inr () \<longrightarrow>
        (\<forall>k < length chunks.
          chunk_item (localStorage (snd (write_chunks faults index chunks s))) (index + k)
            = Some (ChunkLz (chunks ! k))
          \<or> chunk_item (localStorage (snd (write_chunks faults index chunks s))) (index + k)
            = Some (ChunkLz (retry_chunk (chunks ! k)))))"
proof (induction chunks arbitrary: s index)
  case Nil
  show ?case by simp
next
  case (Cons chunk rest)
  obtain res s1 where first: "write_chunk faults index chunk s = (res, s1)"
    by (cases "write_chunk faults index chunk s")
  note one = write_chunk_store [of faults index chunk s, unfolded first fst_conv snd_conv]
  show ?case
  proof (cases res)
    case (Inl e)
    with first one show ?thesis
      by (simp add: and_then_def)
  next
    case (Inr u)
    then have step: "write_chunks faults index (chunk # rest) s = write_chunks faults (Suc index) rest s1"
      using first by (simp add: and_then_def)
    note more = Cons.IH [of "Suc index" s1]
    have files: "files_item (localStorage (snd (write_chunks faults (Suc index) rest s1)))
        = files_item (localStorage s)"
      and count: "count_item (localStorage (snd (write_chunks faults (Suc index) rest s1)))
        = count_item (localStorage s)"
      using one more by simp_all
    have outside: "chunk_item (localStorage (snd (write_chunks faults (Suc index) rest s1))) i
            = chunk_item (localStorage s) i" if "i < index \<or> index + length (chunk # rest) \<le> i" for i
    proof -
      from that have far: "i < Suc index \<or> Suc index + length rest \<le> i" and "i \<noteq> index" by auto
      then have "chunk_item (localStorage s1) i = chunk_item (localStorage s) i"
        using one by blast
      moreover have "chunk_item (localStorage (snd (write_chunks faults (Suc index) rest s1))) i
          = chunk_item (localStorage s1) i"
        using more far by blast
      ultimately show ?thesis by simp
    qed
    have inside: "chunk_item (localStorage (snd (write_chunks faults (Suc index) rest s1))) (index + k)
            = Some (ChunkLz ((chunk # rest) ! k))
          \<or> chunk_item (localStorage (snd (write_chunks faults (Suc index) rest s1))) (index + k)
            = Some (ChunkLz (retry_chunk ((chunk # rest) ! k)))"
      if ok: "fst (write_chunks faults (Suc index) rest s1) = Inr ()" and k: "k < length (chunk # rest)" for k
    proof (cases k)
      case 0
      have "chunk_item (localStorage (snd (write_chunks faults (Suc index) rest s1))) index
          = chunk_item (localStorage s1) index"
        using more by simp
      with one Inr 0 show ?thesis by auto
    next
      case (Suc j)
      with k have "j < length rest" by simp
      with more ok have "chunk_item (localStorage (snd (write_chunks faults (Suc index) rest s1))) (Suc index + j)
            = Some (ChunkLz (rest ! j))
          \<or> chunk_item (localStorage (snd (write_chunks faults (Suc index) rest s1))) (Suc index + j)
            = Some (ChunkLz (retry_chunk (rest ! j)))"
        by blast
      with Suc show ?thesis by simp
    qed
    show ?thesis
      unfolding step using files count outside inside by blast
  qed
qed

lemma save_pass_store:
  "(\<forall>i. length (make_chunks (cachedData s)) \<le> i \<longrightarrow>
        chunk_item (localStorage (snd (save_pass faults s))) i = None
      \<or> chunk_item (localStorage (snd (save_pass faults s))) i = chunk_item (localStorage s) i)
   \<and> (fst (save_pass faults s) = Inr () \<longrightarrow>
        files_item (localStorage (snd (save_pass faults s))) = Some (FilesJson (userUploadedFiles s))
      \<and> count_item (localStorage (snd (save_pass faults s)))
          = Some (toString (length (make_chunks (cachedData s))))
      \<and> (\<forall>k < length (make_chunks (cachedData s)).
            chunk_item (localStorage (snd (save_pass faults s))) k
              = Some (ChunkLz (make_chunks (cachedData s) ! k))
          \<or> chunk_item (localStorage (snd (save_pass faults s))) k
              = Some (ChunkLz (retry_chunk (make_chunks (cachedData s) ! k))))
      \<and> (\<forall>i. length (make_chunks (cachedData s)) \<le> i \<and> i < stored_chunk_count (localStorage s)
            \<longrightarrow> chunk_item (localStorage (snd (save_pass faults s))) i = None))"
proof -
  let ?chunks = "make_chunks (cachedData s)"
  let ?old = "stored_chunk_count (localStorage s)"
  obtain r1 s1 where 1: "setItem_files faults (userUploadedFiles s) s = (r1, s1)"
    by (cases "setItem_files faults (userUploadedFiles s) s")
  have "same_memory s (snd (setItem_files faults (userUploadedFiles s) s))"
    by (simp add: setItem_files_def same_memory_mutate)
  then have mem1: "same_memory s s1"
    by (simp add: 1)
  have st1: "chunk_item (localStorage s1) = chunk_item (localStorage s)"
    "count_item (localStorage s1) = count_item (localStorage s)"
    "r1 = Inr () \<longrightarrow> files_item (localStorage s1) = Some (FilesJson (userUploadedFiles s))"
    using 1 by (auto simp: setItem_files_def mutate_def split: if_splits)
  have old1: "stored_chunk_count (localStorage s1) = ?old"
    by (simp add: stored_chunk_count_def st1)
  obtain r2 s2 where 2: "remove_chunks faults [0 ..< ?old] s1 = (r2, s2)"
    by (cases "remove_chunks faults [0 ..< ?old] s1")
  note rem = remove_chunks_store [of faults "[0 ..< ?old]" s1, unfolded 2 fst_conv snd_conv]
  have mem2: "same_memory s1 s2"
    using same_memory_remove_chunks [of s1 faults "[0 ..< ?old]"] 2 by simp
  have chunks2: "make_chunks (cachedData s2) = ?chunks"
    using mem1 mem2 by (simp add: same_memory_def)
  obtain r3 s3 where 3: "write_chunks faults 0 ?chunks s2 = (r3, s3)"
    by (cases "write_chunks faults 0 ?chunks s2")
  note wr = write_chunks_store [of faults 0 ?chunks s2, unfolded 3 fst_conv snd_conv]
  have mem3: "same_memory s2 s3"
    using same_memory_write_chunks [of s2 faults 0 ?chunks] 3 by simp
  have chunks3: "make_chunks (cachedData s3) = ?chunks"
    using mem1 mem2 mem3 by (simp add: same_memory_def)
  obtain r4 s4 where 4: "setItem_count faults (toString (length ?chunks)) s3 = (r4, s4)"
    by (cases "setItem_count faults (toString (length ?chunks)) s3")
  have st4: "chunk_item (localStorage s4) = chunk_item (localStorage s3)"
    "files_item (localStorage s4) = files_item (localStorage s3)"
    "r4 = Inr () \<longrightarrow> count_item (localStorage s4) = Some (toString (length ?chunks))"
    using 4 by (auto simp: setItem_count_def mutate_def split: if_splits)
  have unit: "r = Inr ()" if "r = Inr u" for r :: "jexn + unit" and u
    using that by simp
  consider (a) e where "r1 = Inl e" | (b) e where "r1 = Inr ()" "r2 = Inl e"
    | (c) e where "r1 = Inr ()" "r2 = Inr ()" "r3 = Inl e"
    | (d) "r1 = Inr ()" "r2 = Inr ()" "r3 = Inr ()"
    by (cases r1; cases r2; cases r3) auto
  then show ?thesis
  proof cases
    case a
    then have "save_pass faults s = (Inl e, s1)"
      by (simp add: save_pass_def 1 and_then_def)
    then show ?thesis using st1 by simp
  next
    case b
    then have "save_pass faults s = (Inl e, s2)"
      by (simp add: save_pass_def 1 old1 2 and_then_def)
    then show ?thesis using st1 rem by auto
  next
    case c
    then have "save_pass faults s = (Inl e, s3)"
      by (simp add: save_pass_def 1 old1 2 chunks2 3 and_then_def)
    then show ?thesis using st1 rem wr by auto
  next
    case d
    then have pass: "save_pass faults s = (r4, s4)"
      by (simp add: save_pass_def 1 old1 2 chunks2 3 chunks3 4 and_then_def)
    have beyond: "chunk_item (localStorage s4) i = None
        \<or> chunk_item (localStorage s4) i = chunk_item (localStorage s) i"
      if "length ?chunks \<le> i" for i
      using that st4 wr rem st1 by auto
    have first: "chunk_item (localStorage s4) k = Some (ChunkLz (?chunks ! k))
          \<or> chunk_item (localStorage s4) k = Some (ChunkLz (retry_chunk (?chunks ! k)))"
      if "k < length ?chunks" for k
      using that st4 wr d by auto
    have removed: "chunk_item (localStorage s4) i = None"
      if "length ?chunks \<le> i \<and> i < ?old" for i
      using that st4 wr rem d by auto
    have files: "files_item (localStorage s4) = Some (FilesJson (userUploadedFiles s))"
      using st4 wr rem st1 d by simp
    show ?thesis
      unfolding pass fst_conv snd_conv
      using beyond first removed files st4 by blast
  qed
qed

lemma saveCachedData_first_pass:
  assumes "fst (save_pass faults s) = Inr ()"
  shows "saveCachedData (Suc depth) faults s = save_pass faults s"
  using assms by (cases "save_pass faults s") (simp add: saveCachedData.simps)

lemma make_chunks_Nil: "make_chunks [] = []"
  by (simp add: make_chunks_def chunk_loop.simps)

lemma stale_store_example:
  "saveCachedData 2 (fail_at []) stale_store =
     (Inr (), \<lparr>cachedData = [], userUploadedFiles = [],
      localStorage = \<lparr>files_item = Some (FilesJson []), count_item = Some [48],
                       chunk_item = [5 \<mapsto> ChunkLz [sample (js ''a.csv'') (js ''x'')]]\<rparr>,
      calls = 2\<rparr>)"
  by (simp add: fail_at_def saveCachedData_numeral stale_store_def save_pass_def and_then_def
        setItem_files_def setItem_count_def mutate_def stored_chunk_count_def js_0 parseInt_0
        make_chunks_Nil toString_small)

lemma toString_3_Suc: "toString (Suc (Suc (Suc 0))) = [51]"
  by (simp add: toString.simps)

lemma retried_write_example:
  "save_pass (fail_at [2]) three_records =
     (Inr (), \<lparr>cachedData = cachedData three_records,
      userUploadedFiles = [js ''a.csv''],
      localStorage = \<lparr>files_item = Some (FilesJson [js ''a.csv'']), count_item = Some [51],
         chunk_item = [0 \<mapsto> ChunkLz [sample (js ''a.csv'') (js ''x'')], 1 \<mapsto> ChunkLz [],
                       2 \<mapsto> ChunkLz [sample (js ''a.csv'') (js ''z'')]]\<rparr>,
      calls = 6\<rparr>)"
  by (simp add: fail_at_def three_records_def empty_storage_def save_pass_def and_then_def
        setItem_files_def setItem_count_def setItem_chunk_def write_chunk_def mutate_def
        stored_chunk_count_def js_0 parseInt_0 make_chunks_3 floor_percent_small slice_def
        toString_small toString_3_Suc numeral_2_eq_2)

lemma saveCachedData_high_keys:
  assumes "MAX_CHUNKS \<le> i"
  shows "chunk_item (localStorage (snd (saveCachedData depth faults s))) i = None
       \<or> chunk_item (localStorage (snd (saveCachedData depth faults s))) i
           = chunk_item (localStorage s) i"
proof (induction depth arbitrary: s)
  case 0
  show ?case by (simp add: saveCachedData.simps)
next
  case (Suc depth)
  obtain res s1 where pass: "save_pass faults s = (res, s1)"
    by (cases "save_pass faults s")
  have "length (make_chunks (cachedData s)) \<le> i"
    using assms chunk_count_le [of "length (cachedData s)"] by (simp add: length_make_chunks)
  then have one: "chunk_item (localStorage s1) i = None
      \<or> chunk_item (localStorage s1) i = chunk_item (localStorage s) i"
    using save_pass_store [of s faults] pass by simp
  show ?case
  proof (cases res)
    case (Inr u)
    with pass one show ?thesis by (simp add: saveCachedData.simps)
  next
    case (Inl e)
    then have "fst (save_pass faults s) = Inl e" using pass by simp
    then have after: "saveCachedData (Suc depth) faults s
        = (Inr (), snd (saveCachedData depth faults (prune s1)))"
      using saveCachedData_after_throw [of faults s e depth] pass by simp
    have "chunk_item (localStorage (snd (saveCachedData depth faults (prune s1)))) i = None
       \<or> chunk_item (localStorage (snd (saveCachedData depth faults (prune s1)))) i
           = chunk_item (localStorage (prune s1)) i"
      by (rule Suc.IH)
    with one show ?thesis
      unfolding after by (auto simp: prune_def)
  qed
qed

text \<open>
  C2 as stated fails, for a pattern of failures and for an initial store.
  \<^item> From an empty store and a cache of three records, let both writes of the third chunk
    throw: the outer \<^verbatim>\<open>catch\<close> prunes the cache to one record and the retry persists the
    count 1, while the chunks 0 and 1 of the failed pass are both in the store.
  \<^item> From a store that holds a chunk under the index 5 and no count, an empty cache is
    persisted without any failure: the old count reads as 0, nothing is removed, and the
    count 0 is persisted beside the one chunk.
\<close>

theorem stale_chunks_counterexample:
  "stored_chunk_count (localStorage (snd (saveCachedData 2 (fail_at [3, 4]) three_records)))
     \<noteq> card (dom (chunk_item (localStorage
          (snd (saveCachedData 2 (fail_at [3, 4]) three_records)))))
   \<and> stored_chunk_count (localStorage (snd (saveCachedData 2 (fail_at []) stale_store)))
     \<noteq> card (dom (chunk_item (localStorage (snd (saveCachedData 2 (fail_at []) stale_store)))))"
  by (simp add: stale_example stale_store_example stored_chunk_count_def parseInt_0)

text \<open>
  C2, as amended. Let the first pass of a persist operation return (a chunk write may throw
  and its retry go through), on a store that holds no chunk blob at an index that is at or
  beyond both its stored chunk count and the number of chunks to write. Then the chunk blobs
  present are exactly those under the indices below the persisted count, so their number is
  the persisted count, which is the number of chunks of the partition. And in every state of
  the store the restore operation reads chunk keys at indices below the persisted count only.
\<close>

theorem count_matches_blobs_when_first_pass_returns:
  assumes "fst (save_pass faults s) = Inr ()"
    and "\<forall>i. stored_chunk_count (localStorage s) \<le> i \<and> length (make_chunks (cachedData s)) \<le> i
           \<longrightarrow> chunk_item (localStorage s) i = None"
  shows "dom (chunk_item (localStorage (snd (saveCachedData (Suc depth) faults s))))
          = {..< stored_chunk_count (localStorage (snd (saveCachedData (Suc depth) faults s)))}
    \<and> card (dom (chunk_item (localStorage (snd (saveCachedData (Suc depth) faults s)))))
          = stored_chunk_count (localStorage (snd (saveCachedData (Suc depth) faults s)))
    \<and> stored_chunk_count (localStorage (snd (saveCachedData (Suc depth) faults s)))
          = length (make_chunks (cachedData s))
    \<and> (\<forall>i \<in> set (snd (loadCachedData t)). i < stored_chunk_count (localStorage t))"
proof -
  let ?s' = "snd (saveCachedData (Suc depth) faults s)"
  let ?m = "length (make_chunks (cachedData s))"
  have s': "?s' = snd (save_pass faults s)"
    by (simp add: saveCachedData_first_pass [OF assms(1)])
  note st = save_pass_store [of s faults]
  have count: "stored_chunk_count (localStorage ?s') = ?m"
    using st assms(1) by (intro stored_chunk_count_toString) (simp add: s')
  have present: "chunk_item (localStorage ?s') k \<noteq> None" if "k < ?m" for k
    using st assms(1) that unfolding s' by fastforce
  have absent: "chunk_item (localStorage ?s') i = None" if "?m \<le> i" for i
  proof (cases "i < stored_chunk_count (localStorage s)")
    case True
    with that st assms(1) show ?thesis unfolding s' by blast
  next
    case False
    with that assms(2) have "chunk_item (localStorage s) i = None" by simp
    with that st show ?thesis unfolding s' by metis
  qed
  have dom: "dom (chunk_item (localStorage ?s')) = {..< ?m}"
  proof (intro set_eqI iffI)
    fix i assume "i \<in> dom (chunk_item (localStorage ?s'))"
    then have "\<not> ?m \<le> i" using absent by auto
    then show "i \<in> {..< ?m}" by simp
  next
    fix i assume "i \<in> {..< ?m}"
    then show "i \<in> dom (chunk_item (localStorage ?s'))"
      using present by auto
  qed
  have reads: "\<forall>i \<in> set (snd (loadCachedData t)). i < stored_chunk_count (localStorage t)"
    using restore_reads [of t] by auto
  show ?thesis
    using count dom reads by simp
qed

theorem count_matches_blobs_when_first_pass_returns_witness:
  "fst (save_pass (fail_at [2]) three_records) = Inr ()
   \<and> \<not> quiet (fail_at [2]) (calls three_records)
   \<and> card (dom (chunk_item (localStorage (snd (saveCachedData (Suc 0) (fail_at [2]) three_records)))))
       = 3
   \<and> stored_chunk_count (localStorage (snd (saveCachedData (Suc 0) (fail_at [2]) three_records)))
       = 3"
proof -
  have pass: "fst (save_pass (fail_at [2]) three_records) = Inr ()"
    by (simp add: retried_write_example)
  have clean: "\<forall>i. stored_chunk_count (localStorage three_records) \<le> i
        \<and> length (make_chunks (cachedData three_records)) \<le> i
      \<longrightarrow> chunk_item (localStorage three_records) i = None"
    by (simp add: three_records_def empty_storage_def)
  have loud: "\<not> quiet (fail_at [2]) (calls three_records)"
    by (auto simp: quiet_def fail_at_def three_records_def)
  have "length (make_chunks (cachedData three_records)) = 3"
    by (simp add: three_records_def make_chunks_3)
  with count_matches_blobs_when_first_pass_returns [OF pass clean, of 0] pass loud show ?thesis
    by simp
qed

text \<open>
  C4. For a cache of \<open>n \<ge> 1\<close> records \<open>itemsPerChunk\<close> is \<open>ceil (n / 40)\<close>, and the persist
  operation cuts the cache into exactly \<open>ceil (n / itemsPerChunk)\<close> chunks, at most 40, the
  \<open>k\<close>-th being the contiguous slice \<open>[k * itemsPerChunk, (k + 1) * itemsPerChunk)\<close>; in index
  order they make up the cache again. When the pass returns, the count in the store is that
  number and under every chunk key below it sits the slice of that index, or, where the
  write of the chunk threw and its retry went through, the first 70 percent of the slice;
  when no call throws, under every such key sits the slice itself. Whatever throws, the
  persist operation leaves every chunk key from 40 on as it found it, or removed. (A pass
  that throws is followed by a persist of the pruned cache, to which all of this applies
  again.)
\<close>

theorem persist_partition_within_max_chunks:
  assumes "1 \<le> length (cachedData s)"
  shows "int (itemsPerChunk (length (cachedData s)))
        = \<lceil>real (length (cachedData s)) / real MAX_CHUNKS\<rceil>
    \<and> int (length (make_chunks (cachedData s)))
        = \<lceil>real (length (cachedData s)) / real (itemsPerChunk (length (cachedData s)))\<rceil>
    \<and> length (make_chunks (cachedData s)) \<le> 40
    \<and> (\<forall>k < length (make_chunks (cachedData s)).
          make_chunks (cachedData s) ! k =
            slice (k * itemsPerChunk (length (cachedData s)))
                  (k * itemsPerChunk (length (cachedData s)) + itemsPerChunk (length (cachedData s)))
                  (cachedData s))
    \<and> concat (make_chunks (cachedData s)) = cachedData s
    \<and> (fst (save_pass faults s) = Inr () \<longrightarrow>
          stored_chunk_count (localStorage (snd (saveCachedData (Suc depth) faults s)))
            = length (make_chunks (cachedData s))
        \<and> (\<forall>k < length (make_chunks (cachedData s)).
              chunk_item (localStorage (snd (saveCachedData (Suc depth) faults s))) k
                = Some (ChunkLz (make_chunks (cachedData s) ! k))
            \<or> chunk_item (localStorage (snd (saveCachedData (Suc depth) faults s))) k
                = Some (ChunkLz (retry_chunk (make_chunks (cachedData s) ! k)))))
    \<and> (quiet faults (calls s) \<longrightarrow>
          (\<forall>k < length (make_chunks (cachedData s)).
              chunk_item (localStorage (snd (saveCachedData (Suc depth) faults s))) k
                = Some (ChunkLz (make_chunks (cachedData s) ! k))))
    \<and> (\<forall>i. 40 \<le> i \<longrightarrow>
          chunk_item (localStorage (snd (saveCachedData (Suc depth) faults s))) i = None
        \<or> chunk_item (localStorage (snd (saveCachedData (Suc depth) faults s))) i
            = chunk_item (localStorage s) i)"
proof (intro conjI allI impI)
  let ?cache = "cachedData s"
  have pos: "0 < itemsPerChunk (length ?cache)"
    using assms by (intro itemsPerChunk_pos) (cases ?cache, auto)
  show "int (itemsPerChunk (length ?cache)) = \<lceil>real (length ?cache) / real MAX_CHUNKS\<rceil>"
    using ceiling_div_nat [of MAX_CHUNKS "length ?cache"]
    by (simp add: itemsPerChunk_def MAX_CHUNKS_def)
  show "int (length (make_chunks ?cache))
        = \<lceil>real (length ?cache) / real (itemsPerChunk (length ?cache))\<rceil>"
    using ceiling_div_nat [OF pos, of "length ?cache"]
    by (simp add: length_make_chunks chunk_count_def)
  show "length (make_chunks ?cache) \<le> 40"
    using chunk_count_le [of "length ?cache"] by (simp add: length_make_chunks MAX_CHUNKS_def)
  show "concat (make_chunks ?cache) = ?cache"
    by (rule concat_make_chunks)
next
  fix k
  assume "k < length (make_chunks (cachedData s))"
  then have "k < chunk_count (length (cachedData s))"
    by (simp add: length_make_chunks)
  then show "make_chunks (cachedData s) ! k =
            slice (k * itemsPerChunk (length (cachedData s)))
                  (k * itemsPerChunk (length (cachedData s)) + itemsPerChunk (length (cachedData s)))
                  (cachedData s)"
    by (simp add: make_chunks_eq)
next
  assume pass: "fst (save_pass faults s) = Inr ()"
  then show "stored_chunk_count (localStorage (snd (saveCachedData (Suc depth) faults s)))
            = length (make_chunks (cachedData s))"
    using save_pass_store [of s faults]
    by (intro stored_chunk_count_toString) (simp add: saveCachedData_first_pass)
next
  fix k
  assume "fst (save_pass faults s) = Inr ()" and "k < length (make_chunks (cachedData s))"
  then show "chunk_item (localStorage (snd (saveCachedData (Suc depth) faults s))) k
                = Some (ChunkLz (make_chunks (cachedData s) ! k))
            \<or> chunk_item (localStorage (snd (saveCachedData (Suc depth) faults s))) k
                = Some (ChunkLz (retry_chunk (make_chunks (cachedData s) ! k)))"
    using save_pass_store [of s faults] by (simp add: saveCachedData_first_pass)
next
  fix k
  assume q: "quiet faults (calls s)" and "k < length (make_chunks (cachedData s))"
  then show "chunk_item (localStorage (snd (saveCachedData (Suc depth) faults s))) k
                = Some (ChunkLz (make_chunks (cachedData s) ! k))"
    by (simp add: saveCachedData_quiet [OF q] save_pass_quiet [OF q])
next
  fix i :: nat
  assume "40 \<le> i"
  then show "chunk_item (localStorage (snd (saveCachedData (Suc depth) faults s))) i = None
        \<or> chunk_item (localStorage (snd (saveCachedData (Suc depth) faults s))) i
            = chunk_item (localStorage s) i"
    by (intro saveCachedData_high_keys) (simp add: MAX_CHUNKS_def)
qed

theorem persist_partition_within_max_chunks_witness:
  "1 \<le> length (cachedData three_records)
   \<and> fst (save_pass (fail_at [2]) three_records) = Inr ()
   \<and> stored_chunk_count (localStorage (snd (saveCachedData (Suc 0) (fail_at [2]) three_records))) = 3
   \<and> quiet (fail_at []) (calls three_records)
   \<and> chunk_item (localStorage (snd (saveCachedData (Suc 0) (fail_at []) three_records))) 2
       = Some (ChunkLz [sample (js ''a.csv'') (js ''z'')])"
proof -
  have n: "1 \<le> length (cachedData three_records)"
    by (simp add: three_records_def)
  have pass: "fst (save_pass (fail_at [2]) three_records) = Inr ()"
    by (simp add: retried_write_example)
  have q: "quiet (fail_at []) (calls three_records)"
    by (simp add: quiet_def fail_at_def)
  have chunks: "make_chunks (cachedData three_records)
      = [[sample (js ''a.csv'') (js ''x'')], [sample (js ''a.csv'') (js ''y'')],
         [sample (js ''a.csv'') (js ''z'')]]"
    by (simp add: three_records_def make_chunks_3)
  from persist_partition_within_max_chunks [OF n, of "fail_at [2]" 0] pass
  have "stored_chunk_count (localStorage (snd (saveCachedData (Suc 0) (fail_at [2]) three_records)))
      = length (make_chunks (cachedData three_records))"
    by blast
  moreover from persist_partition_within_max_chunks [OF n, of "fail_at []" 0] q
  have "\<forall>k < length (make_chunks (cachedData three_records)).
      chunk_item (localStorage (snd (saveCachedData (Suc 0) (fail_at []) three_records))) k
        = Some (ChunkLz (make_chunks (cachedData three_records) ! k))"
    by blast
  then have "chunk_item (localStorage (snd (saveCachedData (Suc 0) (fail_at []) three_records))) 2
        = Some (ChunkLz (make_chunks (cachedData three_records) ! 2))"
    by (simp add: chunks)
  ultimately show ?thesis
    using n pass q by (simp add: chunks)
qed

section \<open>Search\<close>


lemma commands:
  "extractRowsCommand (js ''show top 5'') = Some (Top, 5)"
  "extractRowsCommand (js ''show bottom 3'') = Some (Bottom, 3)"
  "extractRowsCommand (js ''show top 0'') = Some (Top, 0)"
  "extractRowsCommand (js ''show bottom 0'') = Some (Bottom, 0)"
  "extractRowsCommand (js ''show top 1'') = Some (Top, 1)"
  "extractRowsCommand (js ''last 7 show top 2'') = Some (Top, 2)"
  by (simp_all add: extractRowsCommand_def patterns_def match_verb_range_def match_range_def
        strip_literal_def strip_spaces_def capture_digits_def js_def fold_case_def is_space_def
        is_digit_def parseInt_def digits_value_def Let_def)

lemma first_match_Some_iff:
  "first_match f xs = Some y \<longleftrightarrow>
     (\<exists>i < length xs. f (xs ! i) = Some y \<and> (\<forall>j < i. f (xs ! j) = None))"
proof (induction xs)
  case Nil
  show ?case by simp
next
  case (Cons x xs)
  show ?case
  proof (cases "f x")
    case (Some z)
    show ?thesis
    proof
      assume "first_match f (x # xs) = Some y"
      with Some have "z = y" by simp
      with Some have "f ((x # xs) ! 0) = Some y \<and> (\<forall>j < 0. f ((x # xs) ! j) = None)" by simp
      then show "\<exists>i < length (x # xs). f ((x # xs) ! i) = Some y \<and> (\<forall>j < i. f ((x # xs) ! j) = None)"
        by (intro exI [of _ 0]) simp
    next
      assume "\<exists>i < length (x # xs). f ((x # xs) ! i) = Some y \<and> (\<forall>j < i. f ((x # xs) ! j) = None)"
      then obtain i where i: "f ((x # xs) ! i) = Some y" "\<forall>j < i. f ((x # xs) ! j) = None"
        by blast
      have "i = 0"
      proof (rule ccontr)
        assume "i \<noteq> 0"
        then have "f ((x # xs) ! 0) = None" using i(2) by blast
        with Some show False by simp
      qed
      with i(1) Some show "first_match f (x # xs) = Some y" by simp
    qed
  next
    case None
    have "(\<exists>i < length (x # xs). f ((x # xs) ! i) = Some y \<and> (\<forall>j < i. f ((x # xs) ! j) = None))
      \<longleftrightarrow> (\<exists>i < length xs. f (xs ! i) = Some y \<and> (\<forall>j < i. f (xs ! j) = None))"
    proof
      assume "\<exists>i < length (x # xs). f ((x # xs) ! i) = Some y \<and> (\<forall>j < i. f ((x # xs) ! j) = None)"
      then obtain i where i: "i < length (x # xs)" "f ((x # xs) ! i) = Some y"
          "\<forall>j < i. f ((x # xs) ! j) = None"
        by blast
      with None obtain k where k: "i = Suc k" by (cases i) auto
      have "\<forall>j < k. f (xs ! j) = None"
      proof (intro allI impI)
        fix j assume "j < k"
        then have "Suc j < i" using k by simp
        then have "f ((x # xs) ! Suc j) = None" using i(3) by blast
        then show "f (xs ! j) = None" by simp
      qed
      with i k show "\<exists>i < length xs. f (xs ! i) = Some y \<and> (\<forall>j < i. f (xs ! j) = None)"
        by (intro exI [of _ k]) simp
    next
      assume "\<exists>i < length xs. f (xs ! i) = Some y \<and> (\<forall>j < i. f (xs ! j) = None)"
      then obtain k where k: "k < length xs" "f (xs ! k) = Some y" "\<forall>j < k. f (xs ! j) = None"
        by blast
      have "\<forall>j < Suc k. f ((x # xs) ! j) = None"
      proof (intro allI impI)
        fix j assume "j < Suc k"
        then show "f ((x # xs) ! j) = None"
          using None k(3) by (cases j) auto
      qed
      with k show "\<exists>i < length (x # xs). f ((x # xs) ! i) = Some y \<and> (\<forall>j < i. f ((x # xs) ! j) = None)"
        by (intro exI [of _ "Suc k"]) simp
    qed
    with None Cons.IH show ?thesis by simp
  qed
qed

lemma searchKnowledgeBase_command:
  assumes "extractRowsCommand query = Some (type, count)"
  shows "searchKnowledgeBase lc query s =
     (case row_command_result type (select_rows type count (cachedData s)) of
        Inr result \<Rightarrow> Inr result | Inl error \<Rightarrow> Inr error_result)"
  by (simp add: searchKnowledgeBase_def search_body_def assms)

text \<open>
  C7. For every query and every state of the cache, \<^verbatim>\<open>searchKnowledgeBase\<close> resolves with
  a result and never rejects; when the body of its \<^verbatim>\<open>try\<close> throws, the result is the error
  result, whose \<^verbatim>\<open>foundInKnowledgeBase\<close> is false and whose \<^verbatim>\<open>totalRecords\<close> is 0.
\<close>

theorem search_never_throws:
  "(\<exists>result. searchKnowledgeBase lc query s = Inr result)
   \<and> (\<forall>err. search_body lc query s = Inl err \<longrightarrow>
          searchKnowledgeBase lc query s = Inr error_result)
   \<and> \<not> foundInKnowledgeBase error_result
   \<and> totalRecords (searchDetails error_result) = 0"
  by (cases "search_body lc query s")
     (simp_all add: searchKnowledgeBase_def error_result_def no_details_def)

theorem search_never_throws_witness:
  "search_body ascii_lower (js ''show top 1'') null_cache = Inl TypeError
   \<and> searchKnowledgeBase ascii_lower (js ''show top 1'') null_cache = Inr error_result"
proof -
  have body: "search_body ascii_lower (js ''show top 1'') null_cache = Inl TypeError"
    by (simp add: search_body_def commands select_rows_def slice_def null_cache_def
          row_command_result_def headers_of_def)
  with search_never_throws [of ascii_lower "js ''show top 1''" null_cache] show ?thesis
    by blast
qed


lemma all_records_samples: "all_records (map (\<lambda>i. sample src (f i)) is)"
  by (simp add: all_records_def list_all_iff sample_def)

lemma take_as_positions:
  assumes "n \<le> length xs"
  shows "take n xs = map (\<lambda>i. xs ! i) [0 ..< n]"
proof -
  have "take n xs = take n (map (\<lambda>i. xs ! i) [0 ..< length xs])"
    by (simp add: map_nth)
  also have "\<dots> = map (\<lambda>i. xs ! i) (take n [0 ..< length xs])"
    by (simp only: take_map)
  also have "\<dots> = map (\<lambda>i. xs ! i) [0 ..< n]"
    using assms by simp
  finally show ?thesis .
qed

lemma drop_as_positions: "drop n xs = map (\<lambda>i. xs ! i) [n ..< length xs]"
proof -
  have "drop n xs = drop n (map (\<lambda>i. xs ! i) [0 ..< length xs])"
    by (simp add: map_nth)
  also have "\<dots> = map (\<lambda>i. xs ! i) (drop n [0 ..< length xs])"
    by (simp only: drop_map)
  also have "\<dots> = map (\<lambda>i. xs ! i) [n ..< length xs]"
    by simp
  finally show ?thesis .
qed

lemma extractRowsCommand_iff:
  "extractRowsCommand query = Some (type, count) \<longleftrightarrow>
     (\<exists>i < length patterns. \<exists>capture.
         fst (patterns ! i) = type \<and> snd (patterns ! i) query = Some capture
       \<and> count = (case parseInt capture of None \<Rightarrow> 0 | Some k \<Rightarrow> nat k)
       \<and> (\<forall>j < i. snd (patterns ! j) query = None))"
proof -
  define g :: "row_type \<times> (jstring \<Rightarrow> jstring option) \<Rightarrow> (row_type \<times> nat) option"
    where "g = (\<lambda>(type, regex).
        case regex query of None \<Rightarrow> None
        | Some capture \<Rightarrow>
            Some (type, case parseInt capture of None \<Rightarrow> 0 | Some k \<Rightarrow> nat k))"
  have g_Some: "g p = Some (type, count) \<longleftrightarrow>
      (\<exists>capture. fst p = type \<and> snd p query = Some capture
         \<and> count = (case parseInt capture of None \<Rightarrow> 0 | Some k \<Rightarrow> nat k))" for p
    by (cases p) (auto simp: g_def split: option.splits)
  have g_None: "g p = None \<longleftrightarrow> snd p query = None" for p
    by (cases p) (auto simp: g_def split: option.splits)
  have "extractRowsCommand query = first_match g patterns"
    by (simp add: extractRowsCommand_def g_def)
  then show ?thesis
    by (simp only: first_match_Some_iff g_Some g_None) blast
qed

lemma sources_of_entries: "sources_of (map Entry es) = Inr (map source es)"
  by (induction es) simp_all

lemma row_command_result_entries:
  assumes "es \<noteq> []"
  shows "row_command_result type (map Entry es) =
     Inr \<lparr>result_text = js ''Showing '' @ (if type = Top then js ''first'' else js ''last'')
             @ js '' '' @ toString (length es) @ js '' rows from the dataset.'',
          foundInKnowledgeBase = True,
          searchDetails =
            \<lparr>totalRecords = length es, searchTerms = [], conditions = [],
             requestedColumns = map fst (own_columns (hd es)),
             availableColumns = map fst (own_columns (hd es)),
             sources = distinct_in_order (map source es)\<rparr>\<rparr>"
proof -
  obtain e rest where shape: "es = e # rest"
    using assms by (cases es) auto
  have "sources_of (map Entry (e # rest)) = Inr (map source (e # rest))"
    by (rule sources_of_entries)
  then show ?thesis
    unfolding shape row_command_result_def headers_of_def by simp
qed

lemma distinct_in_order_same:
  assumes "xs \<noteq> []" and "\<forall>y \<in> set xs. y = x"
  shows "distinct_in_order xs = [x]"
proof -
  have seen: "\<forall>y \<in> set ys. y = x \<Longrightarrow>
      foldl (\<lambda>seen y. if y \<in> set seen then seen else seen @ [y]) [x] ys = [x]" for ys
    by (induction ys) simp_all
  obtain y ys where shape: "xs = y # ys"
    using assms(1) by (cases xs) auto
  with assms(2) have "y = x" and "\<forall>y \<in> set ys. y = x" by simp_all
  then show ?thesis
    by (simp add: distinct_in_order_def shape seen)
qed

lemma texts:
  "js ''Showing '' @ js ''first'' @ js '' '' @ toString 5 @ js '' rows from the dataset.''
     = js ''Showing first 5 rows from the dataset.''"
  "js ''Showing '' @ js ''last'' @ js '' '' @ toString 3 @ js '' rows from the dataset.''
     = js ''Showing last 3 rows from the dataset.''"
  by (simp_all add: js_def toString.simps)

lemma top_5_of_20:
  assumes "cachedData s = map Entry es" and "length es = 20"
  shows "searchKnowledgeBase lc (js ''show top 5'') s =
     Inr \<lparr>result_text = js ''Showing first 5 rows from the dataset.'',
          foundInKnowledgeBase = True,
          searchDetails =
            \<lparr>totalRecords = 5, searchTerms = [], conditions = [],
             requestedColumns = map fst (own_columns (es ! 0)),
             availableColumns = map fst (own_columns (es ! 0)),
             sources = distinct_in_order (map source (take 5 es))\<rparr>\<rparr>"
proof -
  have rows: "select_rows Top 5 (cachedData s) = map Entry (take 5 es)"
    by (simp add: select_rows_def slice_def assms(1) take_map)
  have ne: "take 5 es \<noteq> []" and len: "length (take 5 es) = 5"
    and first: "hd (take 5 es) = es ! 0"
    using assms(2) by (cases es; simp)+
  show ?thesis
    using row_command_result_entries [OF ne, of Top]
    unfolding len first
    by (simp add: searchKnowledgeBase_command [OF commands(1)] rows texts)
qed

lemma bottom_3_of_20:
  assumes "cachedData s = map Entry es" and "length es = 20"
  shows "searchKnowledgeBase lc (js ''show bottom 3'') s =
     Inr \<lparr>result_text = js ''Showing last 3 rows from the dataset.'',
          foundInKnowledgeBase = True,
          searchDetails =
            \<lparr>totalRecords = 3, searchTerms = [], conditions = [],
             requestedColumns = map fst (own_columns (es ! 17)),
             availableColumns = map fst (own_columns (es ! 17)),
             sources = distinct_in_order (map source (drop 17 es))\<rparr>\<rparr>"
proof -
  have rows: "select_rows Bottom 3 (cachedData s) = map Entry (drop 17 es)"
    using assms(2) by (simp add: select_rows_def slice_last_def assms(1) drop_map)
  have ne: "drop 17 es \<noteq> []" and len: "length (drop 17 es) = 3"
    and first: "hd (drop 17 es) = es ! 17"
    using assms(2) by (auto simp: hd_drop_conv_nth)
  show ?thesis
    using row_command_result_entries [OF ne, of Bottom]
    unfolding len first
    by (simp add: searchKnowledgeBase_command [OF commands(2)] rows texts)
qed

lemma own_columns_drug: "own_columns \<lparr>columns = [(js ''drug'', v)], source = src, content = c\<rparr>
    = [(js ''drug'', v)]"
  by (simp add: own_columns_def js_def)

lemma sample_entry: "sample src v = Entry (sample_entry src v)"
  by (simp add: sample_def sample_entry_def)

lemma sample_entry_fields:
  "map fst (own_columns (sample_entry src v)) = [js ''drug'']" "source (sample_entry src v) = src"
  by (simp_all add: sample_entry_def own_columns_drug)

lemma top_5_samples:
  "searchKnowledgeBase lc (js ''show top 5'')
      \<lparr>cachedData = map (\<lambda>i. sample src (f i)) [0 ..< 20],
        userUploadedFiles = files, localStorage = st, calls = n\<rparr> =
     Inr \<lparr>result_text = js ''Showing first 5 rows from the dataset.'',
          foundInKnowledgeBase = True,
          searchDetails =
            \<lparr>totalRecords = 5, searchTerms = [], conditions = [],
             requestedColumns = [js ''drug''], availableColumns = [js ''drug''],
             sources = [src]\<rparr>\<rparr>"
proof -
  let ?es = "map (\<lambda>i. sample_entry src (f i)) [0 ..< 20]"
  have cache: "cachedData \<lparr>cachedData = map (\<lambda>i. sample src (f i)) [0 ..< 20],
        userUploadedFiles = files, localStorage = st, calls = n\<rparr> = map Entry ?es"
    by (simp add: sample_entry)
  have len: "length ?es = 20" by simp
  have "distinct_in_order (map source (take 5 ?es)) = [src]"
    by (rule distinct_in_order_same) (auto simp: sample_entry_fields dest!: in_set_takeD)
  moreover have "?es ! 0 = sample_entry src (f 0)"
    by (simp del: upt_Suc)
  ultimately show ?thesis
    using top_5_of_20 [OF cache len, of lc] by (simp only: sample_entry_fields)
qed

text \<open>
  C8 as stated fails in what it says is returned: the result has no field for records. Two
  caches of 20 records that differ in the records at the positions 0 to 4 get the same result
  for \<^verbatim>\<open>show top 5\<close>.
\<close>

theorem result_carries_no_rows_counterexample:
  "length (cachedData twenty_records) = 20 \<and> all_records (cachedData twenty_records)
   \<and> length (cachedData twenty_copies) = 20 \<and> all_records (cachedData twenty_copies)
   \<and> select_rows Top 5 (cachedData twenty_records) ! 0 = sample (js ''a.csv'') (js ''0'')
   \<and> select_rows Top 5 (cachedData twenty_copies) ! 0 = sample (js ''a.csv'') (js ''x'')
   \<and> sample (js ''a.csv'') (js ''0'') \<noteq> sample (js ''a.csv'') (js ''x'')
   \<and> searchKnowledgeBase ascii_lower (js ''show top 5'') twenty_records
     = searchKnowledgeBase ascii_lower (js ''show top 5'') twenty_copies"
proof -
  have "select_rows Top 5 (cachedData twenty_records) ! 0 = sample (js ''a.csv'') (js ''0'')"
    by (simp add: select_rows_def slice_def twenty_records_def toString_small js_0 del: upt_Suc)
  moreover have "select_rows Top 5 (cachedData twenty_copies) ! 0 = sample (js ''a.csv'') (js ''x'')"
    by (simp add: select_rows_def slice_def twenty_copies_def del: upt_Suc)
  moreover have "sample (js ''a.csv'') (js ''0'') \<noteq> sample (js ''a.csv'') (js ''x'')"
    by (simp add: sample_def js_def)
  moreover have "searchKnowledgeBase ascii_lower (js ''show top 5'') twenty_records
     = searchKnowledgeBase ascii_lower (js ''show top 5'') twenty_copies"
    unfolding twenty_records_def twenty_copies_def by (simp only: top_5_samples)
  ultimately show ?thesis
    by (simp add: twenty_records_def twenty_copies_def all_records_samples)
qed

text \<open>
  C8, as amended. On a cache of 20 records the query \<^verbatim>\<open>show top 5\<close> selects the records at
  the positions 0 to 4, in order, and returns the result with the text
  \<^verbatim>\<open>Showing first 5 rows from the dataset.\<close>, \<^verbatim>\<open>foundInKnowledgeBase = true\<close>,
  \<^verbatim>\<open>totalRecords = 5\<close>, the column names of the record at the position 0 and the sources of
  the selected records, each once; \<^verbatim>\<open>show bottom 3\<close> selects those at the positions 17 to 19
  and returns the like for them. The result reports the selected records and does not hold
  them. The command extracted from a query is that of the first pattern, in the order of
  declaration, that matches it; the result of a query with a command is made from the rows
  that command selects; and these are the first or the last \<open>N\<close> of the cache, as they are.
\<close>

theorem show_top_5_and_bottom_3_of_20_report:
  assumes "cachedData s = map Entry es" and "length es = 20"
  shows "select_rows Top 5 (cachedData s) = map (\<lambda>i. cachedData s ! i) [0 ..< 5]
    \<and> searchKnowledgeBase lc (js ''show top 5'') s =
        Inr \<lparr>result_text = js ''Showing first 5 rows from the dataset.'',
             foundInKnowledgeBase = True,
             searchDetails =
               \<lparr>totalRecords = 5, searchTerms = [], conditions = [],
                requestedColumns = map fst (own_columns (es ! 0)),
                availableColumns = map fst (own_columns (es ! 0)),
                sources = distinct_in_order (map source (take 5 es))\<rparr>\<rparr>
    \<and> select_rows Bottom 3 (cachedData s) = map (\<lambda>i. cachedData s ! i) [17 ..< 20]
    \<and> searchKnowledgeBase lc (js ''show bottom 3'') s =
        Inr \<lparr>result_text = js ''Showing last 3 rows from the dataset.'',
             foundInKnowledgeBase = True,
             searchDetails =
               \<lparr>totalRecords = 3, searchTerms = [], conditions = [],
                requestedColumns = map fst (own_columns (es ! 17)),
                availableColumns = map fst (own_columns (es ! 17)),
                sources = distinct_in_order (map source (drop 17 es))\<rparr>\<rparr>
    \<and> (\<forall>query type count. extractRowsCommand query = Some (type, count) \<longleftrightarrow>
          (\<exists>i < length patterns. \<exists>capture.
              fst (patterns ! i) = type \<and> snd (patterns ! i) query = Some capture
            \<and> count = (case parseInt capture of None \<Rightarrow> 0 | Some k \<Rightarrow> nat k)
            \<and> (\<forall>j < i. snd (patterns ! j) query = None)))
    \<and> (\<forall>query type count. extractRowsCommand query = Some (type, count) \<longrightarrow>
          search_body lc query s = row_command_result type (select_rows type count (cachedData s)))
    \<and> (\<forall>n cache. select_rows Top n cache = take n cache
          \<and> select_rows Bottom (Suc n) cache = drop (length cache - Suc n) cache)"
proof (intro conjI)
  have len: "length (cachedData s) = 20"
    by (simp add: assms)
  have "select_rows Top 5 (cachedData s) = take 5 (cachedData s)"
    by (simp add: select_rows_def slice_def)
  also have "\<dots> = map (\<lambda>i. cachedData s ! i) [0 ..< 5]"
    using len by (simp add: take_as_positions)
  finally show "select_rows Top 5 (cachedData s) = map (\<lambda>i. cachedData s ! i) [0 ..< 5]" .
  have "select_rows Bottom 3 (cachedData s) = drop 17 (cachedData s)"
    using len by (simp add: select_rows_def slice_last_def)
  also have "\<dots> = map (\<lambda>i. cachedData s ! i) [17 ..< 20]"
    using len drop_as_positions [of 17 "cachedData s"] by simp
  finally show "select_rows Bottom 3 (cachedData s) = map (\<lambda>i. cachedData s ! i) [17 ..< 20]" .
  show "searchKnowledgeBase lc (js ''show top 5'') s =
        Inr \<lparr>result_text = js ''Showing first 5 rows from the dataset.'',
             foundInKnowledgeBase = True,
             searchDetails =
               \<lparr>totalRecords = 5, searchTerms = [], conditions = [],
                requestedColumns = map fst (own_columns (es ! 0)),
                availableColumns = map fst (own_columns (es ! 0)),
                sources = distinct_in_order (map source (take 5 es))\<rparr>\<rparr>"
    using assms by (rule top_5_of_20)
  show "searchKnowledgeBase lc (js ''show bottom 3'') s =
        Inr \<lparr>result_text = js ''Showing last 3 rows from the dataset.'',
             foundInKnowledgeBase = True,
             searchDetails =
               \<lparr>totalRecords = 3, searchTerms = [], conditions = [],
                requestedColumns = map fst (own_columns (es ! 17)),
                availableColumns = map fst (own_columns (es ! 17)),
                sources = distinct_in_order (map source (drop 17 es))\<rparr>\<rparr>"
    using assms by (rule bottom_3_of_20)
  show "\<forall>query type count. extractRowsCommand query = Some (type, count) \<longleftrightarrow>
          (\<exists>i < length patterns. \<exists>capture.
              fst (patterns ! i) = type \<and> snd (patterns ! i) query = Some capture
            \<and> count = (case parseInt capture of None \<Rightarrow> 0 | Some k \<Rightarrow> nat k)
            \<and> (\<forall>j < i. snd (patterns ! j) query = None))"
    by (intro allI extractRowsCommand_iff)
  show "\<forall>query type count. extractRowsCommand query = Some (type, count) \<longrightarrow>
          search_body lc query s = row_command_result type (select_rows type count (cachedData s))"
    by (simp add: search_body_def)
  show "\<forall>n cache. select_rows Top n cache = take n cache
          \<and> select_rows Bottom (Suc n) cache = drop (length cache - Suc n) cache"
    by (simp add: select_rows_def slice_def slice_last_def)
qed

theorem show_top_5_and_bottom_3_of_20_report_witness:
  "cachedData twenty_records = map Entry (map (\<lambda>i. sample_entry (js ''a.csv'') (toString i)) [0 ..< 20])
   \<and> length (map (\<lambda>i. sample_entry (js ''a.csv'') (toString i)) [0 ..< 20]) = 20
   \<and> searchKnowledgeBase ascii_lower (js ''show top 5'') twenty_records =
        Inr \<lparr>result_text = js ''Showing first 5 rows from the dataset.'',
             foundInKnowledgeBase = True,
             searchDetails =
               \<lparr>totalRecords = 5, searchTerms = [], conditions = [],
                requestedColumns = [js ''drug''], availableColumns = [js ''drug''],
                sources = [js ''a.csv'']\<rparr>\<rparr>
   \<and> select_rows Bottom 3 (cachedData twenty_records)
       = map (\<lambda>i. cachedData twenty_records ! i) [17 ..< 20]"
proof -
  let ?es = "map (\<lambda>i. sample_entry (js ''a.csv'') (toString i)) [0 ..< 20]"
  have cache: "cachedData twenty_records = map Entry ?es"
    by (simp add: twenty_records_def sample_entry)
  have len: "length ?es = 20" by simp
  have src: "distinct_in_order (map source (take 5 ?es)) = [js ''a.csv'']"
    by (rule distinct_in_order_same) (auto simp: sample_entry_fields dest!: in_set_takeD)
  have first: "map fst (own_columns (?es ! 0)) = [js ''drug'']"
    by (simp add: sample_entry_fields del: upt_Suc)
  from show_top_5_and_bottom_3_of_20_report [OF cache len, of ascii_lower]
  have "searchKnowledgeBase ascii_lower (js ''show top 5'') twenty_records =
        Inr \<lparr>result_text = js ''Showing first 5 rows from the dataset.'',
             foundInKnowledgeBase = True,
             searchDetails =
               \<lparr>totalRecords = 5, searchTerms = [], conditions = [],
                requestedColumns = map fst (own_columns (?es ! 0)),
                availableColumns = map fst (own_columns (?es ! 0)),
                sources = distinct_in_order (map source (take 5 ?es))\<rparr>\<rparr>"
    and "select_rows Bottom 3 (cachedData twenty_records)
       = map (\<lambda>i. cachedData twenty_records ! i) [17 ..< 20]"
    by blast+
  then show ?thesis
    using cache len by (simp only: src first)
qed

lemma more_commands:
  "extractRowsCommand (js ''please display first 0 rows'') = Some (Top, 0)"
  "extractRowsCommand (js ''LAST 0'') = Some (Bottom, 0)"
  by (simp_all add: extractRowsCommand_def patterns_def match_verb_range_def match_range_def
        strip_literal_def strip_spaces_def capture_digits_def js_def fold_case_def is_space_def
        is_digit_def parseInt_def digits_value_def Let_def)

lemma bottom_0_three:
  "searchKnowledgeBase lc (js ''show bottom 0'')
      \<lparr>cachedData = [sample src a, sample src b, sample src c],
        userUploadedFiles = files, localStorage = st, calls = n\<rparr> =
     Inr \<lparr>result_text = js ''Showing last 3 rows from the dataset.'',
          foundInKnowledgeBase = True,
          searchDetails =
            \<lparr>totalRecords = 3, searchTerms = [], conditions = [],
             requestedColumns = [js ''drug''], availableColumns = [js ''drug''],
             sources = [src]\<rparr>\<rparr>"
proof -
  have "row_command_result Bottom
          (map Entry [sample_entry src a, sample_entry src b, sample_entry src c]) =
     Inr \<lparr>result_text = js ''Showing last 3 rows from the dataset.'',
          foundInKnowledgeBase = True,
          searchDetails =
            \<lparr>totalRecords = 3, searchTerms = [], conditions = [],
             requestedColumns = [js ''drug''], availableColumns = [js ''drug''],
             sources = [src]\<rparr>\<rparr>"
    using row_command_result_entries
            [of "[sample_entry src a, sample_entry src b, sample_entry src c]" Bottom]
    by (simp add: sample_entry_fields distinct_in_order_def toString_3_Suc js_def)
  then show ?thesis
    by (simp only: searchKnowledgeBase_command [OF commands(4)])
       (simp add: select_rows_def slice_last_def sample_entry)
qed

text \<open>
  C10 as stated fails in what it says the bottom branch returns: the result has no field for
  records. Two different caches of three records get the same result for \<^verbatim>\<open>show bottom 0\<close>.
\<close>

theorem bottom_zero_result_carries_no_cache_counterexample:
  "cachedData three_records \<noteq> [] \<and> all_records (cachedData three_records)
   \<and> cachedData three_others \<noteq> [] \<and> all_records (cachedData three_others)
   \<and> cachedData three_records \<noteq> cachedData three_others
   \<and> searchKnowledgeBase ascii_lower (js ''show bottom 0'') three_records
     = searchKnowledgeBase ascii_lower (js ''show bottom 0'') three_others"
proof -
  have "searchKnowledgeBase ascii_lower (js ''show bottom 0'') three_records
     = searchKnowledgeBase ascii_lower (js ''show bottom 0'') three_others"
    unfolding three_records_def three_others_def by (simp only: bottom_0_three)
  moreover have "cachedData three_records \<noteq> cachedData three_others"
    by (simp add: three_records_def three_others_def sample_def js_def)
  ultimately show ?thesis
    by (simp add: three_records_def three_others_def all_records_def sample_def)
qed

text \<open>
  C10, as amended. On a non-empty cache of records the two branches differ for the count 0.
  Every query whose command is \<open>top\<close> with the count 0, such as \<^verbatim>\<open>show top 0\<close>, selects
  \<^verbatim>\<open>slice(0, 0)\<close>, which is empty, and returns the result \<^verbatim>\<open>No data available to display.\<close>
  with \<^verbatim>\<open>foundInKnowledgeBase = false\<close> and \<^verbatim>\<open>totalRecords = 0\<close>. Every query whose command is
  \<open>bottom\<close> with the count 0, such as \<^verbatim>\<open>show bottom 0\<close>, selects \<^verbatim>\<open>slice(-0)\<close>, which is the
  whole cache, and returns the result that reports the whole cache:
  \<^verbatim>\<open>foundInKnowledgeBase = true\<close>, \<^verbatim>\<open>totalRecords\<close> the size of the cache, the text
  \<^verbatim>\<open>Showing last N rows from the dataset.\<close> with that size, the column names of the first
  record and the sources of all records, each once.
\<close>

theorem zero_count_top_and_bottom_differ_for_every_query:
  assumes "cachedData s = map Entry es" and "es \<noteq> []"
  shows "(extractRowsCommand query = Some (Top, 0) \<longrightarrow>
            select_rows Top 0 (cachedData s) = []
          \<and> searchKnowledgeBase lc query s = Inr no_data_result)
    \<and> result_text no_data_result = js ''No data available to display.''
    \<and> \<not> foundInKnowledgeBase no_data_result
    \<and> totalRecords (searchDetails no_data_result) = 0
    \<and> (extractRowsCommand query = Some (Bottom, 0) \<longrightarrow>
            select_rows Bottom 0 (cachedData s) = cachedData s
          \<and> searchKnowledgeBase lc query s =
              Inr \<lparr>result_text = js ''Showing last '' @ toString (length es)
                      @ js '' rows from the dataset.'',
                   foundInKnowledgeBase = True,
                   searchDetails =
                     \<lparr>totalRecords = length es, searchTerms = [], conditions = [],
                      requestedColumns = map fst (own_columns (es ! 0)),
                      availableColumns = map fst (own_columns (es ! 0)),
                      sources = distinct_in_order (map source es)\<rparr>\<rparr>)
    \<and> extractRowsCommand (js ''show top 0'') = Some (Top, 0)
    \<and> extractRowsCommand (js ''show bottom 0'') = Some (Bottom, 0)"
proof (intro conjI impI)
  show top: "select_rows Top 0 (cachedData s) = []"
    by (simp add: select_rows_def slice_def)
  show bottom: "select_rows Bottom 0 (cachedData s) = cachedData s"
    by (simp add: select_rows_def slice_last_def)
  show "result_text no_data_result = js ''No data available to display.''"
    and "\<not> foundInKnowledgeBase no_data_result"
    and "totalRecords (searchDetails no_data_result) = 0"
    by (simp_all add: no_data_result_def no_details_def)
  show "extractRowsCommand (js ''show top 0'') = Some (Top, 0)"
    and "extractRowsCommand (js ''show bottom 0'') = Some (Bottom, 0)"
    by (rule commands)+
  {
    assume "extractRowsCommand query = Some (Top, 0)"
    then show "searchKnowledgeBase lc query s = Inr no_data_result"
      by (simp add: searchKnowledgeBase_command top row_command_result_def)
  }
  {
    assume command: "extractRowsCommand query = Some (Bottom, 0)"
    have first: "hd es = es ! 0"
      using assms(2) by (simp add: hd_conv_nth)
    have rows: "select_rows Bottom 0 (cachedData s) = map Entry es"
      using bottom by (simp only: assms(1))
    show "searchKnowledgeBase lc query s =
              Inr \<lparr>result_text = js ''Showing last '' @ toString (length es)
                      @ js '' rows from the dataset.'',
                   foundInKnowledgeBase = True,
                   searchDetails =
                     \<lparr>totalRecords = length es, searchTerms = [], conditions = [],
                      requestedColumns = map fst (own_columns (es ! 0)),
                      availableColumns = map fst (own_columns (es ! 0)),
                      sources = distinct_in_order (map source es)\<rparr>\<rparr>"
      by (simp add: searchKnowledgeBase_command [OF command] rows
            row_command_result_entries [OF assms(2)] first js_def)
  }
qed

theorem zero_count_top_and_bottom_differ_for_every_query_witness:
  "cachedData three_records
     = map Entry [sample_entry (js ''a.csv'') (js ''x''), sample_entry (js ''a.csv'') (js ''y''),
                  sample_entry (js ''a.csv'') (js ''z'')]
   \<and> extractRowsCommand (js ''please display first 0 rows'') = Some (Top, 0)
   \<and> searchKnowledgeBase ascii_lower (js ''please display first 0 rows'') three_records
       = Inr no_data_result
   \<and> extractRowsCommand (js ''LAST 0'') = Some (Bottom, 0)
   \<and> searchKnowledgeBase ascii_lower (js ''LAST 0'') three_records =
        Inr \<lparr>result_text = js ''Showing last 3 rows from the dataset.'',
             foundInKnowledgeBase = True,
             searchDetails =
               \<lparr>totalRecords = 3, searchTerms = [], conditions = [],
                requestedColumns = [js ''drug''], availableColumns = [js ''drug''],
                sources = [js ''a.csv'']\<rparr>\<rparr>"
proof -
  let ?es = "[sample_entry (js ''a.csv'') (js ''x''), sample_entry (js ''a.csv'') (js ''y''),
              sample_entry (js ''a.csv'') (js ''z'')]"
  have cache: "cachedData three_records = map Entry ?es"
    by (simp add: three_records_def sample_entry)
  have ne: "?es \<noteq> []" by simp
  have shown: "js ''Showing last '' @ toString 3 @ js '' rows from the dataset.''
      = js ''Showing last 3 rows from the dataset.''"
    by (simp add: toString_small js_def)
  have src: "distinct_in_order (map source ?es) = [js ''a.csv'']"
    by (simp add: distinct_in_order_def sample_entry_fields)
  have first: "map fst (own_columns (?es ! 0)) = [js ''drug'']"
    by (simp add: sample_entry_fields)
  have len: "length ?es = 3" by simp
  from zero_count_top_and_bottom_differ_for_every_query [OF cache ne, of "js ''please display first 0 rows''" ascii_lower] more_commands(1)
  have top: "searchKnowledgeBase ascii_lower (js ''please display first 0 rows'') three_records
       = Inr no_data_result"
    by blast
  from zero_count_top_and_bottom_differ_for_every_query [OF cache ne, of "js ''LAST 0''" ascii_lower] more_commands(2)
  have "searchKnowledgeBase ascii_lower (js ''LAST 0'') three_records =
              Inr \<lparr>result_text = js ''Showing last '' @ toString (length ?es)
                      @ js '' rows from the dataset.'',
                   foundInKnowledgeBase = True,
                   searchDetails =
                     \<lparr>totalRecords = length ?es, searchTerms = [], conditions = [],
                      requestedColumns = map fst (own_columns (?es ! 0)),
                      availableColumns = map fst (own_columns (?es ! 0)),
                      sources = distinct_in_order (map source ?es)\<rparr>\<rparr>"
    by blast
  then have "searchKnowledgeBase ascii_lower (js ''LAST 0'') three_records =
        Inr \<lparr>result_text = js ''Showing last 3 rows from the dataset.'',
             foundInKnowledgeBase = True,
             searchDetails =
               \<lparr>totalRecords = 3, searchTerms = [], conditions = [],
                requestedColumns = [js ''drug''], availableColumns = [js ''drug''],
                sources = [js ''a.csv'']\<rparr>\<rparr>"
    by (simp only: len src first shown)
  with top cache more_commands show ?thesis
    by blast
qed

section \<open>Ingestion\<close>


lemma processCsvFile_records:
  assumes "processCsvFile file = Inr batch" and "k < length batch"
  shows "content (batch ! k) = marker (k + 1) @ pairs_text (columns (batch ! k))"
    and "source (batch ! k) = (case file of Path p fetched \<Rightarrow> js ''PharmAlchemy'' | File f \<Rightarrow> name f)"
proof -
  obtain data where data: "(case file of Path p fetched \<Rightarrow> fetched | File f \<Rightarrow> parsed f) = Some data"
    using assms(1) by (auto simp: processCsvFile_def split: option.splits)
  let ?src = "case file of Path p fetched \<Rightarrow> js ''PharmAlchemy'' | File f \<Rightarrow> name f"
  have batch: "batch = map (\<lambda>(index, r).
                 \<lparr>columns = r, source = ?src, content = sourceRef index @ pairs_text r\<rparr>)
               (enumerate 0 (filter has_data data))"
    using assms(1) data by (auto simp: processCsvFile_def split: if_splits)
  have k: "k < length (filter has_data data)"
    using assms(2) batch by simp
  show "content (batch ! k) = marker (k + 1) @ pairs_text (columns (batch ! k))"
    using k by (simp add: batch nth_enumerate_eq sourceRef_def marker_def)
  show "source (batch ! k) = ?src"
    using k by (simp add: batch nth_enumerate_eq)
qed

lemma processCsvFile_sources:
  assumes "processCsvFile (File f) = Inr batch"
  shows "list_all (\<lambda>e. source e = name f) batch"
proof -
  have "\<forall>k < length batch. source (batch ! k) = name f"
    using processCsvFile_records(2) [OF assms] by simp
  then show ?thesis
    by (auto simp: list_all_iff in_set_conv_nth)
qed

lemma processExcelFile_records:
  assumes "processExcelFile f = Inr sheet" and "j < length sheet"
  shows "content (sheet ! j) = pairs_text (columns (sheet ! j))"
    and "source (sheet ! j) = name f"
proof -
  obtain jsonData where "parsed f = Some jsonData"
    using assms(1) by (auto simp: processExcelFile_def split: option.splits)
  then have sheet: "sheet = map (\<lambda>r. \<lparr>columns = r, source = name f, content = pairs_text r\<rparr>)
                 (filter has_data jsonData)"
    using assms(1) by (auto simp: processExcelFile_def split: if_splits)
  show "content (sheet ! j) = pairs_text (columns (sheet ! j))"
    and "source (sheet ! j) = name f"
    using assms(2) by (simp_all add: sheet)
qed

lemma processExcelFile_sources:
  assumes "processExcelFile f = Inr sheet"
  shows "list_all (\<lambda>e. source e = name f) sheet"
proof -
  have "\<forall>k < length sheet. source (sheet ! k) = name f"
    using processExcelFile_records(2) [OF assms] by simp
  then show ?thesis
    by (auto simp: list_all_iff in_set_conv_nth)
qed

text \<open>
  C1, as amended. Every record made by the CSV path, from the backend file and from an
  uploaded CSV file alike, has its \<^verbatim>\<open>content\<close> prefixed by the marker U+3010 \<open>N\<close>
  \<^verbatim>\<open>:1\<close> U+2020 \<^verbatim>\<open>source\<close> U+3011, where \<open>N\<close> is the one-based position of the record in
  its batch; its \<^verbatim>\<open>source\<close> is the backend identifier for the backend file and the file
  name for an upload. A record made from an uploaded spreadsheet has the joined pairs as its
  \<^verbatim>\<open>content\<close>, with no marker put before them.
\<close>

theorem csv_records_carry_marker_spreadsheet_records_do_not:
  "(processCsvFile input = Inr batch \<and> k < length batch \<longrightarrow>
      content (batch ! k)
        = [12304] @ toString (k + 1) @ js '':1'' @ [8224] @ js ''source'' @ [12305]
          @ pairs_text (columns (batch ! k))
      \<and> source (batch ! k)
        = (case input of Path p fetched \<Rightarrow> js ''PharmAlchemy'' | File f \<Rightarrow> name f))
   \<and> (processExcelFile sheet_file = Inr sheet \<and> j < length sheet \<longrightarrow>
      content (sheet ! j) = pairs_text (columns (sheet ! j))
      \<and> source (sheet ! j) = name sheet_file)"
  using processCsvFile_records [of input batch k] processExcelFile_records [of sheet_file sheet j]
  by (simp add: marker_def)


lemma toString_2: "toString (Suc (Suc 0)) = [50]"
  by (simp add: toString.simps)

lemma csv_examples:
  "processCsvFile backend_one_row = Inr [csv_entry (js ''PharmAlchemy'') 1 (js ''x'')]"
  "processCsvFile (File one_row_csv) = Inr [csv_entry (js ''a.csv'') 1 (js ''x'')]"
  "processCsvFile (File two_row_csv)
     = Inr [csv_entry (js ''a.csv'') 1 (js ''x''), csv_entry (js ''a.csv'') 2 (js ''y'')]"
  by (simp_all add: processCsvFile_def backend_one_row_def one_row_csv_def two_row_csv_def
        has_data_def filled_def pairs_text_def join_def render_def sourceRef_def csv_entry_def
        js_def toString_small toString_2)

lemma xlsx_example:
  "processExcelFile one_row_xlsx
     = Inr [\<lparr>columns = [(js ''drug'', Str (js ''x''))], source = js ''b.xlsx'',
             content = js ''drug: x''\<rparr>]"
  by (simp add: processExcelFile_def one_row_xlsx_def has_data_def filled_def pairs_text_def
        join_def render_def js_def)

lemma extension_examples:
  "fileExtension ascii_lower (js ''a.csv'') = js ''csv''"
  "fileExtension ascii_lower (js ''b.xlsx'') = js ''xlsx''"
  by (simp_all add: fileExtension_def ascii_lower_def js_def)

lemma js_distinct: "js ''csv'' \<noteq> js ''xlsx''" "js ''csv'' \<noteq> js ''xls''"
  by (simp_all add: js_def)

theorem csv_records_carry_marker_spreadsheet_records_do_not_witness:
  "processCsvFile backend_one_row = Inr [csv_entry (js ''PharmAlchemy'') 1 (js ''x'')]
   \<and> (0::nat) < length [csv_entry (js ''PharmAlchemy'') 1 (js ''x'')]
   \<and> content (csv_entry (js ''PharmAlchemy'') 1 (js ''x''))
       = [12304] @ toString 1 @ js '':1'' @ [8224] @ js ''source'' @ [12305] @ js ''drug: x''
   \<and> source (csv_entry (js ''PharmAlchemy'') 1 (js ''x'')) = js ''PharmAlchemy''
   \<and> processExcelFile one_row_xlsx
       = Inr [\<lparr>columns = [(js ''drug'', Str (js ''x''))], source = js ''b.xlsx'',
               content = js ''drug: x''\<rparr>]"
  using csv_records_carry_marker_spreadsheet_records_do_not
          [of backend_one_row "[csv_entry (js ''PharmAlchemy'') 1 (js ''x'')]" 0
              one_row_xlsx "[\<lparr>columns = [(js ''drug'', Str (js ''x''))], source = js ''b.xlsx'',
               content = js ''drug: x''\<rparr>]" 0]
  by (simp add: csv_examples xlsx_example) (simp add: csv_entry_def js_def)

lemma saveCachedData_returns: "fst (saveCachedData (Suc depth) faults s) = Inr ()"
  by (simp add: saveCachedData.simps split: prod.splits sum.splits)

lemma processFile_result:
  assumes "(if fileExtension lc (name f) = js ''xlsx'' \<or> fileExtension lc (name f) = js ''xls''
            then processExcelFile f
            else if fileExtension lc (name f) = js ''csv'' then processCsvFile (File f)
            else Inl Error) = Inr data"
    and "filter_entries (\<lambda>entry. source entry \<noteq> name f) (cachedData s) = Inr kept"
  shows "processFile lc (Suc depth) faults f s =
     (Inr data,
      snd (saveCachedData (Suc depth) faults
        (s\<lparr>cachedData := kept @ map Entry data,
           userUploadedFiles := (if name f \<in> set (userUploadedFiles s) then userUploadedFiles s
                                 else userUploadedFiles s @ [name f])\<rparr>)))"
proof -
  have returns: "(case saveCachedData (Suc depth) faults t of
        (Inl err, s3) \<Rightarrow> (Inl err, s3) | (Inr u, s3) \<Rightarrow> (Inr data, s3))
      = (Inr data, snd (saveCachedData (Suc depth) faults t))" for t
    using saveCachedData_returns [of depth faults t]
    by (cases "saveCachedData (Suc depth) faults t") auto
  show ?thesis
    unfolding processFile_def Let_def
    by (simp only: assms sum.case returns) simp
qed

text \<open>
  C1 as stated fails for uploaded CSV files: \<^verbatim>\<open>processFile\<close> sends them through
  \<^verbatim>\<open>processCsvFile\<close>, which puts the marker before every record.
\<close>

theorem uploaded_csv_marked_counterexample:
  "fst (processFile ascii_lower 1 (fail_at []) one_row_csv empty_state)
     = Inr [\<lparr>columns = [(js ''drug'', Str (js ''x''))], source = js ''a.csv'',
             content = [12304, 49, 58, 49, 8224] @ js ''source'' @ [12305] @ js ''drug: x''\<rparr>]"
proof -
  have "processFile ascii_lower (Suc 0) (fail_at []) one_row_csv empty_state =
     (Inr [csv_entry (js ''a.csv'') 1 (js ''x'')],
      snd (saveCachedData (Suc 0) (fail_at [])
        (empty_state\<lparr>cachedData := [] @ map Entry [csv_entry (js ''a.csv'') 1 (js ''x'')],
           userUploadedFiles := (if name one_row_csv \<in> set (userUploadedFiles empty_state)
                                 then userUploadedFiles empty_state
                                 else userUploadedFiles empty_state @ [name one_row_csv])\<rparr>)))"
    by (rule processFile_result)
       (simp_all add: one_row_csv_def extension_examples js_distinct csv_examples(2) [unfolded one_row_csv_def]
          empty_state_def)
  then show ?thesis
    by (simp add: csv_entry_def toString_small js_def)
qed

lemma filter_entries_Inr:
  assumes "filter_entries keep xs = Inr ys"
  shows "all_records xs \<and> ys = filter (\<lambda>x. case x of JNull \<Rightarrow> False | Entry e \<Rightarrow> keep e) xs"
  using assms
proof (induction xs arbitrary: ys)
  case Nil
  then show ?case by (simp add: all_records_def)
next
  case (Cons x xs)
  show ?case
  proof (cases x)
    case JNull
    with Cons.prems show ?thesis by simp
  next
    case (Entry e)
    with Cons.prems obtain kept where kept: "filter_entries keep xs = Inr kept"
      by (cases "filter_entries keep xs") auto
    with Cons.IH have "all_records xs"
      and "kept = filter (\<lambda>x. case x of JNull \<Rightarrow> False | Entry e \<Rightarrow> keep e) xs"
      by blast+
    with Cons.prems Entry kept show ?thesis
      by (auto simp: all_records_def)
  qed
qed

lemma filter_other_sources:
  assumes "all_records xs"
  shows "filter (\<lambda>x. case x of JNull \<Rightarrow> False | Entry e \<Rightarrow> source e \<noteq> src) xs
       = filter (\<lambda>x. \<not> from_source src x) xs"
  using assms
  by (intro filter_cong refl) (auto simp: all_records_def list_all_iff from_source_def split: slot.splits)

lemma processFile_success:
  assumes "processFile lc (Suc depth) faults f s = (Inr batch, s')"
  shows "all_records (cachedData s)
    \<and> list_all (\<lambda>e. source e = name f) batch
    \<and> s' = snd (saveCachedData (Suc depth) faults
        (s\<lparr>cachedData := filter (\<lambda>x. \<not> from_source (name f) x) (cachedData s) @ map Entry batch,
           userUploadedFiles := (if name f \<in> set (userUploadedFiles s) then userUploadedFiles s
                                 else userUploadedFiles s @ [name f])\<rparr>))"
proof -
  let ?parse = "if fileExtension lc (name f) = js ''xlsx'' \<or> fileExtension lc (name f) = js ''xls''
            then processExcelFile f
            else if fileExtension lc (name f) = js ''csv'' then processCsvFile (File f)
            else Inl Error"
  obtain data where data: "?parse = Inr data"
    using assms by (cases ?parse) (simp_all add: processFile_def Let_def)
  obtain kept where kept: "filter_entries (\<lambda>entry. source entry \<noteq> name f) (cachedData s) = Inr kept"
    using assms data
    by (cases "filter_entries (\<lambda>entry. source entry \<noteq> name f) (cachedData s)")
       (simp_all add: processFile_def Let_def)
  have result: "(Inr batch, s') =
     (Inr data,
      snd (saveCachedData (Suc depth) faults
        (s\<lparr>cachedData := kept @ map Entry data,
           userUploadedFiles := (if name f \<in> set (userUploadedFiles s) then userUploadedFiles s
                                 else userUploadedFiles s @ [name f])\<rparr>)))"
    using processFile_result [OF data kept, of depth faults] assms by simp
  have recs: "all_records (cachedData s)"
    and "kept = filter (\<lambda>x. case x of JNull \<Rightarrow> False | Entry e \<Rightarrow> source e \<noteq> name f) (cachedData s)"
    using filter_entries_Inr [OF kept] by blast+
  then have kept_eq: "kept = filter (\<lambda>x. \<not> from_source (name f) x) (cachedData s)"
    by (simp add: filter_other_sources)
  have "list_all (\<lambda>e. source e = name f) data"
    using data processExcelFile_sources [of f data] processCsvFile_sources [of f data]
    by (auto split: if_splits)
  with result recs kept_eq show ?thesis by simp
qed

lemma make_chunks_2: "make_chunks [a, b] = [[a], [b]]"
  by (simp add: make_chunks_def chunk_loop.simps itemsPerChunk_def MAX_CHUNKS_def slice_def)

lemma parseInt_2: "parseInt [50] = Some 2"
  by (simp add: parseInt_def is_space_def is_digit_def digits_value_def Let_def)

lemma parse_two_row_csv:
  "(if fileExtension ascii_lower (name two_row_csv) = js ''xlsx''
       \<or> fileExtension ascii_lower (name two_row_csv) = js ''xls''
    then processExcelFile two_row_csv
    else if fileExtension ascii_lower (name two_row_csv) = js ''csv''
         then processCsvFile (File two_row_csv)
         else Inl Error) = Inr two_row_batch"
proof -
  have "fileExtension ascii_lower (name two_row_csv) = js ''csv''"
    by (simp add: two_row_csv_def extension_examples)
  then show ?thesis
    by (simp add: js_distinct csv_examples two_row_batch_def)
qed

lemma upt_0_2: "[0 ..< 2] = [0, Suc 0]"
  by (simp add: upt_rec)

lemma source_csv_entry: "source (csv_entry src n v) = src"
  by (simp add: csv_entry_def)

lemma first_ingest:
  "processFile ascii_lower 2 (fail_at [4]) two_row_csv empty_state = (Inr two_row_batch, after_first_ingest)"
proof -
  have "filter_entries (\<lambda>entry. source entry \<noteq> name two_row_csv) (cachedData empty_state) = Inr []"
    by (simp add: empty_state_def)
  from processFile_result [OF parse_two_row_csv this, of "Suc 0" "fail_at [4]"]
  show ?thesis
    by (simp add: numeral_2_eq_2 [symmetric])
       (simp add: saveCachedData_numeral saveCachedData.simps empty_state_def empty_storage_def
          two_row_csv_def two_row_batch_def after_first_ingest_def fail_at_def
          save_pass_def and_then_def setItem_files_def setItem_count_def setItem_chunk_def
          write_chunk_def mutate_def stored_chunk_count_def js_0 parseInt_0 make_chunks_2
          toString_small toString_2)
qed

lemma second_ingest:
  "processFile ascii_lower 2 (fail_at [4]) two_row_csv after_first_ingest =
     (Inr two_row_batch,
      \<lparr>cachedData = [Entry (csv_entry (js ''a.csv'') 2 (js ''y''))],
       userUploadedFiles = [js ''a.csv''],
       localStorage = \<lparr>files_item = Some (FilesJson [js ''a.csv'']), count_item = Some [49],
         chunk_item = [0 \<mapsto> ChunkLz [Entry (csv_entry (js ''a.csv'') 2 (js ''y''))]]\<rparr>,
       calls = 10\<rparr>)"
proof -
  have "filter_entries (\<lambda>entry. source entry \<noteq> name two_row_csv) (cachedData after_first_ingest)
      = Inr []"
    by (simp add: after_first_ingest_def two_row_batch_def source_csv_entry two_row_csv_def)
  from processFile_result [OF parse_two_row_csv this, of "Suc 0" "fail_at [4]"]
  show ?thesis
    by (simp add: numeral_2_eq_2 [symmetric])
       (simp add: saveCachedData_numeral saveCachedData.simps
          two_row_csv_def two_row_batch_def after_first_ingest_def fail_at_def
          save_pass_def and_then_def setItem_files_def setItem_count_def setItem_chunk_def
          removeItem_chunk_def write_chunk_def mutate_def stored_chunk_count_def parseInt_2
          make_chunks_2 make_chunks_1 prune_def floor_percent_Suc floor_percent_small
          slice_last_def slice_def toString_small toString_2 upt_0_2 fun_upd_twist)
qed

text \<open>
  C6 as stated fails when the persist of the second ingest meets a failure: both ingests of
  a file of two rows succeed, the first write of the second persist throws, and the pruning
  of the cache leaves one record of the file.
\<close>

theorem failed_persist_shrinks_reingested_batch_counterexample:
  "fst (processFile ascii_lower 2 (fail_at [4]) two_row_csv empty_state) = Inr two_row_batch
   \<and> fst (processFile ascii_lower 2 (fail_at [4]) two_row_csv
          (snd (processFile ascii_lower 2 (fail_at [4]) two_row_csv empty_state)))
       = Inr two_row_batch
   \<and> length two_row_batch = 2
   \<and> length (filter (from_source (name two_row_csv))
         (cachedData (snd (processFile ascii_lower 2 (fail_at [4]) two_row_csv
            (snd (processFile ascii_lower 2 (fail_at [4]) two_row_csv empty_state)))))) = 1"
  by (simp add: first_ingest second_ingest)
     (simp add: two_row_batch_def from_source_def source_csv_entry two_row_csv_def)

lemma processFile_first_pass:
  assumes "processFile lc (Suc depth) faults f s = (Inr batch, s')"
    and "fst (save_pass faults (staged f batch s)) = Inr ()"
  shows "cachedData s' = filter (\<lambda>x. \<not> from_source (name f) x) (cachedData s) @ map Entry batch"
proof -
  have "s' = snd (saveCachedData (Suc depth) faults (staged f batch s))"
    using processFile_success [OF assms(1)] by (simp add: staged_def)
  then have "s' = snd (save_pass faults (staged f batch s))"
    by (simp add: saveCachedData_first_pass [OF assms(2)])
  then have "same_memory (staged f batch s) s'"
    using same_memory_save_pass [of "staged f batch s" faults] by simp
  then show ?thesis
    by (simp add: same_memory_def staged_def)
qed

lemma first_ingest_late:
  "processFile ascii_lower 2 (fail_at [7]) two_row_csv empty_state = (Inr two_row_batch, after_first_ingest)"
proof -
  have "filter_entries (\<lambda>entry. source entry \<noteq> name two_row_csv) (cachedData empty_state) = Inr []"
    by (simp add: empty_state_def)
  from processFile_result [OF parse_two_row_csv this, of "Suc 0" "fail_at [7]"]
  show ?thesis
    by (simp add: numeral_2_eq_2 [symmetric])
       (simp add: saveCachedData_numeral saveCachedData.simps empty_state_def empty_storage_def
          two_row_csv_def two_row_batch_def after_first_ingest_def fail_at_def
          save_pass_def and_then_def setItem_files_def setItem_count_def setItem_chunk_def
          write_chunk_def mutate_def stored_chunk_count_def js_0 parseInt_0 make_chunks_2
          toString_small toString_2)
qed

lemma staged_examples:
  "staged two_row_csv two_row_batch empty_state =
     \<lparr>cachedData = map Entry two_row_batch, userUploadedFiles = [js ''a.csv''],
      localStorage = empty_storage, calls = 0\<rparr>"
  "staged two_row_csv two_row_batch after_first_ingest = after_first_ingest"
  by (simp_all add: staged_def two_row_csv_def two_row_batch_def empty_state_def
        after_first_ingest_def from_source_def source_csv_entry)

lemma passes_return:
  "fst (save_pass (fail_at [7]) (staged two_row_csv two_row_batch empty_state)) = Inr ()"
  "fst (save_pass (fail_at [7]) (staged two_row_csv two_row_batch after_first_ingest)) = Inr ()"
  by (simp_all add: staged_examples)
     (simp_all add: two_row_batch_def after_first_ingest_def empty_storage_def fail_at_def
          save_pass_def and_then_def setItem_files_def setItem_count_def setItem_chunk_def
          removeItem_chunk_def write_chunk_def mutate_def stored_chunk_count_def js_0 parseInt_0
          parseInt_2 make_chunks_2 floor_percent_Suc floor_percent_small slice_def
          toString_small toString_2 upt_0_2)

text \<open>
  C6, as amended. Let two ingests of files with the same name \<open>f\<close> succeed one after the
  other; each ends with the persist operation on the module variables it has staged. Let the
  pass of the persist operation that ends the second ingest return. Then
  the cache holds as many records with the source \<open>f\<close> as the second ingest produced, the
  records of other sources are those from before the second ingest, in their order, and the
  cache is these followed by the second batch. When the pass that ends the first ingest
  returns too, the records of other sources are those from before the first ingest.
\<close>

theorem reingest_replaces_batch_when_pass_returns:
  assumes "processFile lc (Suc depth1) faults f1 s0 = (Inr batch1, s1)"
    and "processFile lc (Suc depth2) faults f2 s1 = (Inr batch2, s2)"
    and "name f1 = name f2"
    and "fst (save_pass faults (staged f2 batch2 s1)) = Inr ()"
  shows "s1 = snd (saveCachedData (Suc depth1) faults (staged f1 batch1 s0))
    \<and> s2 = snd (saveCachedData (Suc depth2) faults (staged f2 batch2 s1))
    \<and> length (filter (from_source (name f2)) (cachedData s2)) = length batch2
    \<and> filter (\<lambda>x. \<not> from_source (name f2) x) (cachedData s2)
        = filter (\<lambda>x. \<not> from_source (name f2) x) (cachedData s1)
    \<and> cachedData s2
        = filter (\<lambda>x. \<not> from_source (name f2) x) (cachedData s1) @ map Entry batch2
    \<and> (fst (save_pass faults (staged f1 batch1 s0)) = Inr () \<longrightarrow>
          filter (\<lambda>x. \<not> from_source (name f2) x) (cachedData s2)
            = filter (\<lambda>x. \<not> from_source (name f2) x) (cachedData s0)
        \<and> cachedData s2
            = filter (\<lambda>x. \<not> from_source (name f2) x) (cachedData s0) @ map Entry batch2)"
proof -
  let ?others = "\<lambda>s. filter (\<lambda>x. \<not> from_source (name f2) x) (cachedData s)"
  have two: "cachedData s2 = ?others s1 @ map Entry batch2"
    using processFile_first_pass [OF assms(2) assms(4)] .
  have b1: "list_all (\<lambda>e. source e = name f2) batch1"
    using processFile_success [OF assms(1)] assms(3) by simp
  have b2: "list_all (\<lambda>e. source e = name f2) batch2"
    using processFile_success [OF assms(2)] by simp
  have drop1: "filter (\<lambda>x. \<not> from_source (name f2) x) (map Entry batch1) = []"
    using b1 by (auto simp: filter_empty_conv list_all_iff from_source_def)
  have keep2: "filter (from_source (name f2)) (map Entry batch2) = map Entry batch2"
    using b2 by (auto simp: filter_id_conv list_all_iff from_source_def)
  have drop2: "filter (\<lambda>x. \<not> from_source (name f2) x) (map Entry batch2) = []"
    using b2 by (auto simp: filter_empty_conv list_all_iff from_source_def)
  have none: "filter (from_source (name f2)) (?others s1) = []"
    by (auto simp: filter_empty_conv)
  have count: "length (filter (from_source (name f2)) (cachedData s2)) = length batch2"
    by (simp add: two none keep2)
  have others: "?others s2 = ?others s1"
    by (simp add: two drop2)
  have before: "?others s1 = ?others s0"
    if pass: "fst (save_pass faults (staged f1 batch1 s0)) = Inr ()"
  proof -
    have "cachedData s1 = ?others s0 @ map Entry batch1"
      using processFile_first_pass [OF assms(1) pass] assms(3) by simp
    then show ?thesis
      by (simp add: drop1)
  qed
  have link1: "s1 = snd (saveCachedData (Suc depth1) faults (staged f1 batch1 s0))"
    using processFile_success [OF assms(1)] by (simp add: staged_def)
  have link2: "s2 = snd (saveCachedData (Suc depth2) faults (staged f2 batch2 s1))"
    using processFile_success [OF assms(2)] by (simp add: staged_def)
  have first: "?others s2 = ?others s0 \<and> cachedData s2 = ?others s0 @ map Entry batch2"
    if pass: "fst (save_pass faults (staged f1 batch1 s0)) = Inr ()"
    using others two before [OF pass] by simp
  have "fst (save_pass faults (staged f1 batch1 s0)) = Inr () \<longrightarrow>
      ?others s2 = ?others s0 \<and> cachedData s2 = ?others s0 @ map Entry batch2"
    by (rule impI) (rule first)
  with link1 link2 count others two show ?thesis
    by (intro conjI)
qed

theorem reingest_replaces_batch_when_pass_returns_witness:
  "fst (processFile ascii_lower 2 (fail_at [7]) two_row_csv empty_state) = Inr two_row_batch
   \<and> fst (processFile ascii_lower 2 (fail_at [7]) two_row_csv
          (snd (processFile ascii_lower 2 (fail_at [7]) two_row_csv empty_state)))
       = Inr two_row_batch
   \<and> fail_at [7] 7
   \<and> fst (save_pass (fail_at [7]) (staged two_row_csv two_row_batch empty_state)) = Inr ()
   \<and> fst (save_pass (fail_at [7]) (staged two_row_csv two_row_batch
          (snd (processFile ascii_lower 2 (fail_at [7]) two_row_csv empty_state)))) = Inr ()
   \<and> length (filter (from_source (name two_row_csv))
         (cachedData (snd (processFile ascii_lower 2 (fail_at [7]) two_row_csv
            (snd (processFile ascii_lower 2 (fail_at [7]) two_row_csv empty_state)))))) = 2"
proof -
  let ?s2 = "snd (processFile ascii_lower 2 (fail_at [7]) two_row_csv after_first_ingest)"
  have "filter_entries (\<lambda>entry. source entry \<noteq> name two_row_csv) (cachedData after_first_ingest)
      = Inr []"
    by (simp add: after_first_ingest_def two_row_batch_def source_csv_entry two_row_csv_def)
  from processFile_result [OF parse_two_row_csv this, of "Suc 0" "fail_at [7]"]
  have p2: "processFile ascii_lower (Suc (Suc 0)) (fail_at [7]) two_row_csv after_first_ingest
      = (Inr two_row_batch, ?s2)"
    by (simp add: numeral_2_eq_2)
  have p1: "processFile ascii_lower (Suc (Suc 0)) (fail_at [7]) two_row_csv empty_state
      = (Inr two_row_batch, after_first_ingest)"
    using first_ingest_late by (simp add: numeral_2_eq_2)
  from reingest_replaces_batch_when_pass_returns [OF p1 p2 refl passes_return(2)]
  have "length (filter (from_source (name two_row_csv)) (cachedData ?s2)) = length two_row_batch"
    by blast
  then have "length (filter (from_source (name two_row_csv)) (cachedData ?s2)) = 2"
    by (simp add: two_row_batch_def)
  moreover have "fst (processFile ascii_lower 2 (fail_at [7]) two_row_csv after_first_ingest)
      = Inr two_row_batch"
    using arg_cong [OF p2, of fst] by (simp add: numeral_2_eq_2)
  moreover have "fail_at [7] 7"
    by (simp add: fail_at_def)
  ultimately show ?thesis
    using passes_return by (simp add: first_ingest_late)
qed

end
